theory Spec2Isabelle
  imports Main "HOL-Library.Word"
begin

unbundle bit_operations_syntax

section \<open>The bounded run queue (class RunQueue)\<close>

text \<open>
  \<^verbatim>\<open>template <typename T, unsigned N> class RunQueue\<close> is a ring of \<open>N\<close> entries with two
  cursors of type \<^verbatim>\<open>unsigned\<close> (32 bits). An entry is an atomic state byte and a value of
  type \<open>T\<close>. The pool instantiates \<open>T\<close> with a type-erased callable; a variable of that
  type either holds a callable (\<open>Some c\<close>) or is empty (\<open>None\<close>: default constructed,
  \<^verbatim>\<open>nullptr\<close>, or moved from).

  The operations are modelled for one thread running them without interference: an atomic
  load followed by a compare-exchange sees the same value twice. The only outside
  influence kept is the outcome of \<^verbatim>\<open>try_to_lock\<close> in \<open>pop_back\<close>, which is an argument.
  Every operation returns its boolean result, the queue after the call and the caller's
  variable \<open>w\<close> after the call.
\<close>

datatype slot_state = EMPTY | BUSY | READY

record 'a Entry =
  state :: slot_state
  item_w :: "'a option"

record 'a RunQueue =
  q_front :: "32 word"
  q_back :: "32 word"
  q_array :: "'a Entry list"

definition IDX_MASK :: "32 word \<Rightarrow> 32 word" where
  "IDX_MASK N = N - 1"

definition POS_MASK :: "32 word \<Rightarrow> 32 word" where
  "POS_MASK N = push_bit 1 N - 1"

text \<open>The two \<^verbatim>\<open>static_assert\<close>s of the class on its capacity.\<close>

definition static_assert_N :: "32 word \<Rightarrow> bool" where
  "static_assert_N N \<longleftrightarrow> (N AND (N - 1)) = 0 \<and> N > 2"

text \<open>The constructor: both cursors 0, every slot \<open>EMPTY\<close>.\<close>

definition RunQueue_init :: "32 word \<Rightarrow> 'a RunQueue" where
  "RunQueue_init N =
     \<lparr>q_front = 0, q_back = 0, q_array = replicate (unat N) \<lparr>state = EMPTY, item_w = None\<rparr>\<rparr>"

text \<open>
  \<^verbatim>\<open>item.state.compare_exchange_strong(expected, desired)\<close> on the current value \<open>cur\<close>:
  whether it succeeded, and the value of the atomic afterwards.
\<close>

definition compare_exchange_strong :: "slot_state \<Rightarrow> slot_state \<Rightarrow> slot_state \<Rightarrow> bool \<times> slot_state" where
  "compare_exchange_strong cur expected desired =
     (if cur = expected then (True, desired) else (False, cur))"

definition store_state :: "'a RunQueue \<Rightarrow> nat \<Rightarrow> slot_state \<Rightarrow> 'a RunQueue" where
  "store_state q i s = q\<lparr>q_array := (q_array q)[i := (q_array q ! i)\<lparr>state := s\<rparr>]\<rparr>"

definition store_w :: "'a RunQueue \<Rightarrow> nat \<Rightarrow> 'a option \<Rightarrow> 'a RunQueue" where
  "store_w q i v = q\<lparr>q_array := (q_array q)[i := (q_array q ! i)\<lparr>item_w := v\<rparr>]\<rparr>"

definition empty_q :: "'a RunQueue \<Rightarrow> bool" where
  "empty_q q \<longleftrightarrow> q_front q = q_back q"

definition push_front :: "32 word \<Rightarrow> 'a RunQueue \<Rightarrow> 'a option \<Rightarrow> bool \<times> 'a RunQueue \<times> 'a option" where
  "push_front N q w =
     (let fr = q_front q;
          i = unat (fr AND IDX_MASK N);
          st = state (q_array q ! i)
      in if st \<noteq> EMPTY then (False, q, w)
         else (case compare_exchange_strong (state (q_array q ! i)) st BUSY of
                 (False, _) \<Rightarrow> (False, q, w)
               | (True, busy) \<Rightarrow>
                   (let q1 = store_state q i busy;
                        q2 = q1\<lparr>q_front := (fr + 1) AND POS_MASK N\<rparr>;
                        q3 = store_w q2 i w;
                        q4 = store_state q3 i READY
                    in (True, q4, None))))"

definition pop_front :: "32 word \<Rightarrow> 'a RunQueue \<Rightarrow> 'a option \<Rightarrow> bool \<times> 'a RunQueue \<times> 'a option" where
  "pop_front N q w =
     (if empty_q q then (False, q, w)
      else
        (let fr = q_front q;
             i = unat ((fr - 1) AND IDX_MASK N);
             st = state (q_array q ! i)
         in if st \<noteq> READY then (False, q, w)
            else (case compare_exchange_strong (state (q_array q ! i)) st BUSY of
                    (False, _) \<Rightarrow> (False, q, w)
                  | (True, busy) \<Rightarrow>
                      (let q1 = store_state q i busy;
                           q2 = q1\<lparr>q_front := (fr - 1) AND POS_MASK N\<rparr>;
                           v = item_w (q_array q2 ! i);
                           q3 = store_w q2 i None;
                           q4 = store_state q3 i EMPTY
                       in (True, q4, v)))))"

definition push_back :: "32 word \<Rightarrow> 'a RunQueue \<Rightarrow> 'a option \<Rightarrow> bool \<times> 'a RunQueue \<times> 'a option" where
  "push_back N q w =
     (let bk = q_back q;
          i = unat ((bk - 1) AND IDX_MASK N);
          st = state (q_array q ! i)
      in if st \<noteq> EMPTY then (False, q, w)
         else (case compare_exchange_strong (state (q_array q ! i)) st BUSY of
                 (False, _) \<Rightarrow> (False, q, w)
               | (True, busy) \<Rightarrow>
                   (let q1 = store_state q i busy;
                        q2 = q1\<lparr>q_back := (bk - 1) AND POS_MASK N\<rparr>;
                        q3 = store_w q2 i w;
                        q4 = store_state q3 i READY
                    in (True, q4, None))))"

text \<open>\<open>locked\<close> is what \<^verbatim>\<open>std::unique_lock lock(_mutex, std::try_to_lock)\<close> obtained.\<close>

definition pop_back :: "32 word \<Rightarrow> 'a RunQueue \<Rightarrow> 'a option \<Rightarrow> bool \<Rightarrow> bool \<times> 'a RunQueue \<times> 'a option" where
  "pop_back N q w locked =
     (if empty_q q then (False, q, w)
      else if \<not> locked then (False, q, w)
      else
        (let bk = q_back q;
             i = unat (bk AND IDX_MASK N);
             st = state (q_array q ! i)
         in if st \<noteq> READY then (False, q, w)
            else (case compare_exchange_strong (state (q_array q ! i)) st BUSY of
                    (False, _) \<Rightarrow> (False, q, w)
                  | (True, busy) \<Rightarrow>
                      (let q1 = store_state q i busy;
                           v = item_w (q_array q1 ! i);
                           q2 = store_w q1 i None;
                           q3 = q2\<lparr>q_back := (bk + 1) AND POS_MASK N\<rparr>;
                           q4 = store_state q3 i EMPTY
                       in (True, q4, v)))))"

subsection \<open>Sequential use of a queue\<close>

text \<open>The number of tasks a queue holds: its slots in state \<open>READY\<close>.\<close>

definition num_ready :: "'a RunQueue \<Rightarrow> nat" where
  "num_ready q = length (filter (\<lambda>e. state e = READY) (q_array q))"

text \<open>
  The queues of capacity \<open>N\<close> that arise in a sequential execution: the constructed
  queue, and what any of the four operations, with any argument, leaves of such a queue.
\<close>

inductive reachable :: "32 word \<Rightarrow> 'a RunQueue \<Rightarrow> bool" for N :: "32 word" where
  constructed: "reachable N (RunQueue_init N)"
| after_push_front: "reachable N q \<Longrightarrow> reachable N (fst (snd (push_front N q w)))"
| after_pop_front: "reachable N q \<Longrightarrow> reachable N (fst (snd (pop_front N q w)))"
| after_push_back: "reachable N q \<Longrightarrow> reachable N (fst (snd (push_back N q w)))"
| after_pop_back: "reachable N q \<Longrightarrow> reachable N (fst (snd (pop_back N q w locked)))"

text \<open>
  The invariant of these queues. Slot \<open>i\<close> is one of the \<open>cnt\<close> slots that follow the
  slot \<open>s\<close> of the back cursor cyclically:
\<close>

definition occupied :: "nat \<Rightarrow> nat \<Rightarrow> nat \<Rightarrow> nat \<Rightarrow> bool" where
  "occupied M s cnt i \<longleftrightarrow> (s \<le> i \<and> i < s + cnt) \<or> i + M < s + cnt"

text \<open>
  both cursors are below \<open>2N\<close>, the front cursor is the back cursor plus the number of
  tasks modulo \<open>2N\<close>, and the \<open>READY\<close> slots are the occupied ones, all others \<open>EMPTY\<close>.
\<close>

definition rq_inv :: "32 word \<Rightarrow> 'a RunQueue \<Rightarrow> bool" where
  "rq_inv N q \<longleftrightarrow>
     length (q_array q) = unat N \<and>
     unat (q_front q) < 2 * unat N \<and>
     unat (q_back q) < 2 * unat N \<and>
     num_ready q \<le> unat N \<and>
     unat (q_front q) = (unat (q_back q) + num_ready q) mod (2 * unat N) \<and>
     (\<forall>i<unat N. state (q_array q ! i) =
        (if occupied (unat N) (unat (q_back q) mod unat N) (num_ready q) i then READY else EMPTY))"

section \<open>Victim selection (\<open>_xorshift32\<close>, the coprime table, \<open>_steal\<close>)\<close>

definition xorshift32 :: "32 word \<Rightarrow> 32 word" where
  "xorshift32 x =
     (let x1 = x XOR push_bit 13 x;
          x2 = x1 XOR drop_bit 17 x1;
          x3 = x2 XOR push_bit 5 x2
      in x3)"

text \<open>
  \<^verbatim>\<open>uint32_t dice = i+1\<close> in the worker's thread function, \<open>i\<close> being the worker's index
  (a \<^verbatim>\<open>size_t\<close>): the sum is cut to 32 bits.
\<close>

definition worker_seed :: "nat \<Rightarrow> 32 word" where
  "worker_seed i = of_nat (i + 1)"

text \<open>
  The loop of \<open>spawn\<close> that refills \<open>_coprimes\<close>:
  \<^verbatim>\<open>for(size_t i=1; i<=sz+N; i++) if(std::gcd(i, sz+N) == 1) _coprimes.push_back(i);\<close>
  with \<open>n\<close> for \<open>sz+N\<close> and \<open>acc\<close> for the vector built so far.
\<close>

function coprimes_loop :: "nat \<Rightarrow> nat \<Rightarrow> nat list \<Rightarrow> nat list" where
  "coprimes_loop i n acc =
     (if i \<le> n then coprimes_loop (i + 1) n (if gcd i n = 1 then acc @ [i] else acc)
      else acc)"
  by pat_completeness auto
termination
  by (relation "measure (\<lambda>(i, n, acc). n + 1 - i)") auto

definition spawn_coprimes :: "nat \<Rightarrow> nat list" where
  "spawn_coprimes n = coprimes_loop 1 n []"

text \<open>The update of \<open>victim\<close> at the end of one round of the loop in \<open>_steal\<close>.\<close>

definition next_victim :: "nat \<Rightarrow> nat \<Rightarrow> nat \<Rightarrow> nat" where
  "next_victim inc queue_num victim =
     (let victim1 = victim + inc
      in if victim1 \<ge> queue_num then victim1 - queue_num else victim1)"

text \<open>The values \<open>victim\<close> takes in \<open>n\<close> rounds of that loop when no round returns.\<close>

fun steal_victims :: "nat \<Rightarrow> nat \<Rightarrow> nat \<Rightarrow> nat \<Rightarrow> nat list" where
  "steal_victims inc queue_num victim 0 = []"
| "steal_victims inc queue_num victim (Suc n) =
     victim # steal_victims inc queue_num (next_victim inc queue_num victim) n"

section \<open>The pool (class BasicPrivatizedThreadpool)\<close>

text \<open>
  Threads are known by their ids. A task is a value of type \<open>'a\<close>; what a task does when
  it is invoked is outside the model, the fact that it is invoked is recorded. The record
  below has the data members of the class (the mutex and the condition variables have no
  data) and one ghost field, \<open>trace\<close>: the calls whose effect is not a change of a data
  member, in the order the modelled thread makes them.
\<close>

type_synonym thread_id = nat

datatype 'a action =
    Invoke 'a            \<comment> \<open>\<^verbatim>\<open>t()\<close> on the calling thread\<close>
  | LockMutex            \<comment> \<open>the pool's \<^verbatim>\<open>_mutex\<close> is taken\<close>
  | PushOverflow         \<comment> \<open>\<^verbatim>\<open>_task_queue.push_back\<close>\<close>
  | UnlockMutex          \<comment> \<open>the pool's \<^verbatim>\<open>_mutex\<close> is released\<close>
  | NotifyOne nat        \<comment> \<open>\<^verbatim>\<open>_works[i]->cv.notify_one()\<close>\<close>

record 'a Worker =
  queue :: "'a RunQueue"

text \<open>\<^verbatim>\<open>using WorkQueue = RunQueue<TaskType, 1024>\<close>\<close>

definition WorkQueue_N :: "32 word" where
  "WorkQueue_N = 1024"

record 'a pool =
  task_queue :: "'a option list"
  threads :: "thread_id list"
  idle_workers :: nat
  worker_map :: "thread_id \<rightharpoonup> nat"
  owner :: thread_id
  exiting :: bool
  wait_for_all_flag :: bool
  works :: "'a Worker list"
  next_queue :: "64 word"
  sync :: bool
  coprimes :: "nat list"
  trace :: "'a action list"

definition is_owner :: "'a pool \<Rightarrow> thread_id \<Rightarrow> bool" where
  "is_owner p tid \<longleftrightarrow> tid = owner p"

definition num_tasks :: "'a pool \<Rightarrow> nat" where
  "num_tasks p = length (task_queue p)"

definition num_workers :: "'a pool \<Rightarrow> nat" where
  "num_workers p = length (threads p)"

definition set_queue :: "'a pool \<Rightarrow> nat \<Rightarrow> 'a RunQueue \<Rightarrow> 'a pool" where
  "set_queue p i q = p\<lparr>works := (works p)[i := (works p ! i)\<lparr>queue := q\<rparr>]\<rparr>"

definition do_action :: "'a pool \<Rightarrow> 'a action \<Rightarrow> 'a pool" where
  "do_action p a = p\<lparr>trace := trace p @ [a]\<rparr>"

text \<open>
  \<open>_steal\<close>, from the round \<open>i\<close> of its loop on. \<open>free v\<close> says whether the mutex of worker
  \<open>v\<close>'s queue can be taken when the thief tries. The result is that of \<open>_steal\<close>, the
  workers and the thief's variable \<open>w\<close> afterwards, and the victims that were probed.
\<close>

function steal_loop ::
  "'a Worker list \<Rightarrow> (nat \<Rightarrow> bool) \<Rightarrow> nat \<Rightarrow> nat \<Rightarrow> nat \<Rightarrow> nat \<Rightarrow> 'a option
     \<Rightarrow> bool \<times> 'a Worker list \<times> 'a option \<times> nat list" where
  "steal_loop ws free inc queue_num victim i w =
     (if i < queue_num then
        (let r = pop_back WorkQueue_N (queue (ws ! victim)) w (free victim);
             ws1 = ws[victim := (ws ! victim)\<lparr>queue := fst (snd r)\<rparr>]
         in if fst r then (True, ws1, snd (snd r), [victim])
            else
              (let rest = steal_loop ws1 free inc queue_num
                            (next_victim inc queue_num victim) (i + 1) (snd (snd r))
               in (fst rest, fst (snd rest), fst (snd (snd rest)), victim # snd (snd (snd rest)))))
      else (False, ws, w, []))"
  by pat_completeness auto
termination
  by (relation "measure (\<lambda>(ws, free, inc, queue_num, victim, i, w). queue_num - i)") auto

declare coprimes_loop.simps [simp del] steal_loop.simps [simp del]

text \<open>The victims a run of the loop probed.\<close>

definition probed :: "bool \<times> 'a Worker list \<times> 'a option \<times> nat list \<Rightarrow> nat list" where
  "probed r = snd (snd (snd r))"

text \<open>
  \<open>_steal\<close>: one xorshift step on the thief's \<open>dice\<close>, a stride from the table, a first
  victim, then the loop. Only worker threads call it, so the pool has workers and the
  table is not empty. The second component is \<open>dice\<close> afterwards.
\<close>

definition steal ::
  "'a pool \<Rightarrow> (nat \<Rightarrow> bool) \<Rightarrow> 'a option \<Rightarrow> 32 word
     \<Rightarrow> (bool \<times> 'a Worker list \<times> 'a option \<times> nat list) \<times> 32 word" where
  "steal p free w dice =
     (let dice1 = xorshift32 dice;
          inc = coprimes p ! (unat dice1 mod length (coprimes p));
          queue_num = num_workers p;
          victim = unat dice1 mod queue_num
      in (steal_loop (works p) free inc queue_num victim 0 w, dice1))"

text \<open>
  \<open>silent_async\<close>, called by thread \<open>tid\<close> with the callable \<open>c\<close>.
  \<^verbatim>\<open>TaskType t {std::forward<C>(c)}\<close> is \<open>Some c\<close>.
\<close>

definition silent_async :: "'a pool \<Rightarrow> thread_id \<Rightarrow> 'a \<Rightarrow> 'a pool" where
  "silent_async p tid c =
     (let t = Some c
      in if num_workers p = 0 then do_action p (Invoke c)
         else if tid \<noteq> owner p \<and> worker_map p tid \<noteq> None then
           (let i = the (worker_map p tid);
                r = push_front WorkQueue_N (queue (works p ! i)) t;
                p1 = set_queue p i (fst (snd r))
            in if \<not> fst r then
                 (let p2 = do_action p1 LockMutex;
                      p3 = do_action (p2\<lparr>task_queue := task_queue p2 @ [snd (snd r)]\<rparr>) PushOverflow
                  in do_action p3 UnlockMutex)
               else p1)
         else
           (let p0 = p\<lparr>next_queue := next_queue p + 1\<rparr>;
                id = unat (next_queue p0) mod length (works p0);
                r = push_back WorkQueue_N (queue (works p0 ! id)) t;
                p1 = set_queue p0 id (fst (snd r));
                p4 = (if \<not> fst r then
                        (let p2 = do_action p1 LockMutex;
                             p3 = do_action (p2\<lparr>task_queue := task_queue p2 @ [snd (snd r)]\<rparr>) PushOverflow
                         in do_action p3 UnlockMutex)
                      else p1)
            in do_action p4 (NotifyOne id)))"

text \<open>
  The owner's blocking calls. While the owner waits on \<open>_empty_cv\<close> or joins a thread the
  workers run; the model takes what they do as given: \<open>obs\<close> lists the pool as the owner
  finds it each time \<^verbatim>\<open>_empty_cv.wait(lock)\<close> returns, and a call whose wait outlasts the
  list never returns (\<open>Blocked\<close>). An exception leaves the pool as it is at the throw.
\<close>

datatype 'a outcome = Threw string "'a pool" | Returned "'a pool" | Blocked

text \<open>\<^verbatim>\<open>while(!_sync) _empty_cv.wait(lock);\<close>\<close>

fun await_sync :: "'a pool list \<Rightarrow> 'a pool \<Rightarrow> 'a pool option" where
  "await_sync [] p = (if sync p then Some p else None)"
| "await_sync (p' # obs) p = (if sync p then Some p else await_sync obs p')"

text \<open>\<^verbatim>\<open>for(const auto& w : _works) w->cv.notify_one();\<close>\<close>

definition notify_all_workers :: "'a pool \<Rightarrow> 'a pool" where
  "notify_all_workers p = fold (\<lambda>i p. do_action p (NotifyOne i)) [0..<length (works p)] p"

definition wait_for_all :: "'a pool \<Rightarrow> thread_id \<Rightarrow> 'a pool list \<Rightarrow> 'a outcome" where
  "wait_for_all p tid obs =
     (if \<not> is_owner p tid then Threw ''Worker thread cannot wait for all'' p
      else if num_workers p = 0 then Returned p
      else
        (let p1 = do_action p LockMutex;
             p2 = p1\<lparr>wait_for_all_flag := True\<rparr>;
             p3 = notify_all_workers p2
         in case await_sync obs p3 of
              None \<Rightarrow> Blocked
            | Some p4 \<Rightarrow>
                (let p5 = p4\<lparr>sync := False\<rparr>;
                     p6 = p5\<lparr>wait_for_all_flag := False\<rparr>
                 in Returned (do_action p6 UnlockMutex))))"

text \<open>
  \<^verbatim>\<open>_worker_map.insert({id, index})\<close>: \<open>insert\<close> of \<^verbatim>\<open>std::unordered_map\<close> keeps an
  entry that is already there.
\<close>

definition map_insert :: "('k \<rightharpoonup> 'v) \<Rightarrow> 'k \<Rightarrow> 'v \<Rightarrow> ('k \<rightharpoonup> 'v)" where
  "map_insert m k v = (if m k = None then m(k \<mapsto> v) else m)"

text \<open>
  \<open>spawn\<close>, called by thread \<open>tid\<close>. \<open>new_id i\<close> is the id of the thread started in round
  \<open>i\<close> of the last loop. The threads it starts run the worker loop, which is not part of
  this model; they wait for the mutex until \<open>spawn\<close> has returned.
\<close>

definition spawn :: "'a pool \<Rightarrow> thread_id \<Rightarrow> nat \<Rightarrow> 'a pool list \<Rightarrow> (nat \<Rightarrow> thread_id) \<Rightarrow> 'a outcome" where
  "spawn p tid N obs new_id =
     (if \<not> is_owner p tid then Threw ''Worker thread cannot spawn threads'' p
      else
        (case (if threads p \<noteq> [] then wait_for_all p tid obs else Returned p) of
           Threw msg p' \<Rightarrow> Threw msg p'
         | Blocked \<Rightarrow> Blocked
         | Returned p0 \<Rightarrow>
             (let sz = length (threads p0);
                  p1 = do_action p0 LockMutex;
                  p2 = p1\<lparr>coprimes := spawn_coprimes (sz + N)\<rparr>;
                  p3 = fold (\<lambda>i p. p\<lparr>works := works p @ [\<lparr>queue = RunQueue_init WorkQueue_N\<rparr>]\<rparr>)
                         [0..<N] p2;
                  p4 = fold (\<lambda>i p. p\<lparr>threads := threads p @ [new_id i],
                                      worker_map := map_insert (worker_map p) (new_id i) (i + sz)\<rparr>)
                         [0..<N] p3
              in Returned (do_action p4 UnlockMutex))))"

text \<open>
  \<open>shutdown\<close>, called by thread \<open>tid\<close>. \<open>noop\<close> is the task \<^verbatim>\<open>[](){}\<close>; \<open>joined\<close> is the
  pool as the owner finds it when every \<^verbatim>\<open>t.join()\<close> has returned, if they all do.
\<close>

definition shutdown :: "'a pool \<Rightarrow> thread_id \<Rightarrow> 'a pool list \<Rightarrow> 'a \<Rightarrow> ('a pool \<Rightarrow> 'a pool option) \<Rightarrow> 'a outcome" where
  "shutdown p tid obs noop joined =
     (if \<not> is_owner p tid then Threw ''Worker thread cannot shut down the pool'' p
      else if threads p = [] then Returned p
      else
        (let p1 = do_action p LockMutex;
             p2 = p1\<lparr>wait_for_all_flag := True\<rparr>;
             p3 = notify_all_workers p2
         in case await_sync obs p3 of
              None \<Rightarrow> Blocked
            | Some p4 \<Rightarrow>
                (let p5 = p4\<lparr>sync := False\<rparr>;
                     p6 = p5\<lparr>exiting := True\<rparr>;
                     p7 = fold (\<lambda>i p. do_action
                                  (set_queue p i
                                     (fst (snd (push_back WorkQueue_N (queue (works p ! i)) (Some noop)))))
                                  (NotifyOne i))
                            [0..<length (works p6)] p6;
                     p8 = do_action p7 UnlockMutex
                 in case joined p8 of
                      None \<Rightarrow> Blocked
                    | Some p9 \<Rightarrow>
                        Returned (p9\<lparr>threads := [], works := [], worker_map := Map.empty,
                                     wait_for_all_flag := False, exiting := False\<rparr>))))"

text \<open>
  \<open>async\<close>. The tasks of a pool that is used through \<open>async\<close> are user callables and the
  closures \<open>async\<close> builds around them, which invoke the callable and fulfil the promise.
  \<open>result c\<close> is what invoking \<open>c\<close> returns (\<^verbatim>\<open>void\<close> being the unit type, for which both
  branches of the \<^verbatim>\<open>if constexpr\<close> do the same). The second component is the state of the
  returned future when \<open>async\<close> returns: \<open>Some\<close> value once the promise is fulfilled.
\<close>

datatype 'c callable = User 'c | Fulfil 'c

definition async :: "'c callable pool \<Rightarrow> thread_id \<Rightarrow> 'c \<Rightarrow> ('c \<Rightarrow> 'r) \<Rightarrow> 'c callable pool \<times> 'r option" where
  "async p tid c result =
     (if num_workers p = 0 then (do_action p (Invoke (User c)), Some (result c))
      else (silent_async p tid (Fulfil c), None))"

section \<open>Concrete queues and pools\<close>

definition ready_entry :: "nat \<Rightarrow> nat Entry" where
  "ready_entry v = \<lparr>state = READY, item_w = Some v\<rparr>"

text \<open>A queue of capacity 4 holding four tasks, and the empty one.\<close>

definition full4 :: "nat RunQueue" where
  "full4 = \<lparr>q_front = 4, q_back = 0,
            q_array = [ready_entry 10, ready_entry 11, ready_entry 12, ready_entry 13]\<rparr>"

definition empty4 :: "nat RunQueue" where
  "empty4 = RunQueue_init 4"

text \<open>The pool as its constructor finds it, before it calls \<open>spawn\<close>; the owner is thread 0.\<close>

definition pool0 :: "nat pool" where
  "pool0 = \<lparr>task_queue = [], threads = [], idle_workers = 0, worker_map = Map.empty, owner = 0,
            exiting = False, wait_for_all_flag = False, works = [], next_queue = 0, sync = False,
            coprimes = [], trace = []\<rparr>"

text \<open>A pool with two idle workers (threads 1 and 2) and empty queues.\<close>

definition pool2 :: "nat pool" where
  "pool2 = \<lparr>task_queue = [], threads = [1, 2], idle_workers = 0, worker_map = [1 \<mapsto> 0, 2 \<mapsto> 1],
            owner = 0, exiting = False, wait_for_all_flag = False,
            works = [\<lparr>queue = RunQueue_init WorkQueue_N\<rparr>, \<lparr>queue = RunQueue_init WorkQueue_N\<rparr>],
            next_queue = 0, sync = False, coprimes = [1], trace = []\<rparr>"

text \<open>A full queue of the pool's capacity, and the pool with both queues full.\<close>

definition full_queue :: "nat RunQueue" where
  "full_queue = \<lparr>q_front = 1024, q_back = 0, q_array = replicate 1024 (ready_entry 5)\<rparr>"

definition pool2_full :: "nat pool" where
  "pool2_full = pool2\<lparr>works := [\<lparr>queue = full_queue\<rparr>, \<lparr>queue = full_queue\<rparr>]\<rparr>"

text \<open>A pool without workers whose tasks are the callables \<open>async\<close> handles.\<close>

definition callable_pool0 :: "nat callable pool" where
  "callable_pool0 = \<lparr>task_queue = [], threads = [], idle_workers = 0, worker_map = Map.empty, owner = 0,
            exiting = False, wait_for_all_flag = False, works = [], next_queue = 0, sync = False,
            coprimes = [], trace = []\<rparr>"

section \<open>Failed queue operations change nothing\<close>

lemma push_front_cases:
  "push_front N q w = (False, q, w) \<or> fst (push_front N q w)"
  by (simp add: push_front_def compare_exchange_strong_def Let_def)

lemma pop_front_cases:
  "pop_front N q w = (False, q, w) \<or> fst (pop_front N q w)"
  by (simp add: pop_front_def compare_exchange_strong_def Let_def)

lemma push_back_cases:
  "push_back N q w = (False, q, w) \<or> fst (push_back N q w)"
  by (simp add: push_back_def compare_exchange_strong_def Let_def)

lemma pop_back_cases:
  "pop_back N q w locked = (False, q, w) \<or> fst (pop_back N q w locked)"
  by (simp add: pop_back_def compare_exchange_strong_def Let_def)

text \<open>
  Claim C10. Whenever one of the four queue operations returns false, the queue it
  returns is the queue it was given (both cursors, every slot state, every stored value)
  and the caller's variable \<open>w\<close> is as it was: a task offered to a failed push is still
  with the caller, and a failed pop has taken nothing.
\<close>

theorem failed_operation_leaves_queue:
  "(\<not> fst (push_front N q w) \<longrightarrow> push_front N q w = (False, q, w)) \<and>
   (\<not> fst (pop_front N q w) \<longrightarrow> pop_front N q w = (False, q, w)) \<and>
   (\<not> fst (push_back N q w) \<longrightarrow> push_back N q w = (False, q, w)) \<and>
   (\<not> fst (pop_back N q w locked) \<longrightarrow> pop_back N q w locked = (False, q, w))"
  using push_front_cases [of N q w] pop_front_cases [of N q w]
    push_back_cases [of N q w] pop_back_cases [of N q w locked]
  by blast

theorem failed_operation_leaves_queue_witness:
  "push_front 4 full4 (Some 7) = (False, full4, Some 7) \<and>
   pop_front 4 empty4 None = (False, empty4, None) \<and>
   push_back 4 full4 (Some 7) = (False, full4, Some 7) \<and>
   pop_back 4 full4 (Some 7) False = (False, full4, Some 7)"
proof -
  have 1: "\<not> fst (push_front 4 full4 (Some 7))"
    by (simp add: push_front_def full4_def ready_entry_def IDX_MASK_def Let_def)
  have 2: "\<not> fst (pop_front 4 empty4 None)"
    by (simp add: pop_front_def empty4_def RunQueue_init_def empty_q_def)
  have 3: "\<not> fst (push_back 4 full4 (Some 7))"
    by (simp add: push_back_def full4_def ready_entry_def IDX_MASK_def Let_def)
  have 4: "\<not> fst (pop_back 4 full4 (Some 7) False)"
    by (simp add: pop_back_def full4_def empty_q_def)
  from 1 2 3 4 show ?thesis
    using failed_operation_leaves_queue [of 4 full4 "Some 7" False]
      failed_operation_leaves_queue [of 4 empty4 None False]
    by blast
qed

section \<open>The xorshift seed stays nonzero\<close>

lemma xor_eq_zero_word: "(x::32 word) XOR y = 0 \<Longrightarrow> x = y"
proof -
  assume "x XOR y = 0"
  then have "(x XOR y) XOR y = 0 XOR y" by simp
  then show "x = y" by (simp add: xor.assoc)
qed

text \<open>A 32-bit word that equals a proper shift of itself is 0: shift until nothing is left.\<close>

lemma shl13_fixed: "(x::32 word) = push_bit 13 x \<Longrightarrow> x = 0"
proof -
  assume h: "x = push_bit 13 x"
  have "x = push_bit 13 (push_bit 13 (push_bit 13 x))" using h by metis
  then have "x = push_bit 39 x" by simp
  then show ?thesis by simp
qed

lemma shr17_fixed: "(x::32 word) = drop_bit 17 x \<Longrightarrow> x = 0"
proof -
  assume h: "x = drop_bit 17 x"
  have "x = drop_bit 17 (drop_bit 17 x)" using h by metis
  then have "x = drop_bit 34 x" by simp
  then show ?thesis by simp
qed

lemma shl5_fixed: "(x::32 word) = push_bit 5 x \<Longrightarrow> x = 0"
proof -
  assume h: "x = push_bit 5 x"
  have "x = push_bit 5 (push_bit 5 (push_bit 5 (push_bit 5 (push_bit 5 (push_bit 5 (push_bit 5 x))))))"
    using h by metis
  then have "x = push_bit 35 x" by simp
  then show ?thesis by simp
qed

lemma xorshift32_nonzero: "x \<noteq> 0 \<Longrightarrow> xorshift32 x \<noteq> 0"
proof -
  assume nz: "x \<noteq> 0"
  define x1 where "x1 = x XOR push_bit 13 x"
  define x2 where "x2 = x1 XOR drop_bit 17 x1"
  have 1: "x1 \<noteq> 0" using nz xor_eq_zero_word [of x "push_bit 13 x"] shl13_fixed [of x]
    unfolding x1_def by blast
  have 2: "x2 \<noteq> 0" using 1 xor_eq_zero_word [of x1 "drop_bit 17 x1"] shr17_fixed [of x1]
    unfolding x2_def by blast
  have 3: "x2 XOR push_bit 5 x2 \<noteq> 0"
    using 2 xor_eq_zero_word [of x2 "push_bit 5 x2"] shl5_fixed [of x2] by blast
  then show ?thesis by (simp add: xorshift32_def Let_def x1_def x2_def)
qed

lemma xorshift32_iter_nonzero: "x \<noteq> 0 \<Longrightarrow> (xorshift32 ^^ n) x \<noteq> 0"
  by (induction n) (simp_all add: xorshift32_nonzero)

lemma worker_seed_nonzero: "i + 1 < 2 ^ 32 \<Longrightarrow> worker_seed i \<noteq> 0"
proof
  assume lt: "i + 1 < 2 ^ 32" and z: "worker_seed i = 0"
  from z have "word_of_nat (i + 1) = (0::32 word)"
    unfolding worker_seed_def .
  then have "(2::nat) ^ LENGTH(32) dvd i + 1"
    by (simp only: word_of_nat_eq_0_iff)
  then have "(2::nat) ^ 32 dvd i + 1" by simp
  then have "(2::nat) ^ 32 \<le> i + 1" by (rule dvd_imp_le) simp
  with lt show False by simp
qed

text \<open>
  The 32-bit cut of \<open>i+1\<close> is the one way to a zero seed: it needs a worker with index
  \<open>2^32 - 1\<close>, and from 0 the generator never moves.
\<close>

lemma worker_seed_wraps: "worker_seed 4294967295 = 0 \<and> xorshift32 0 = 0"
  by (simp add: worker_seed_def xorshift32_def)

text \<open>
  Claim C8. One xorshift32 step maps a nonzero 32-bit value to a nonzero value, so no
  number of steps takes a nonzero value to zero; the seed \<open>index + 1\<close> of a worker is
  nonzero (for every index whose successor fits the 32 bits of the seed) and therefore
  never becomes zero.
\<close>

theorem xorshift32_seed_never_zero:
  "(x \<noteq> 0 \<longrightarrow> xorshift32 x \<noteq> 0 \<and> (xorshift32 ^^ n) x \<noteq> 0) \<and>
   (i + 1 < 2 ^ 32 \<longrightarrow> worker_seed i \<noteq> 0 \<and> (xorshift32 ^^ n) (worker_seed i) \<noteq> 0)"
  using xorshift32_nonzero [of x] xorshift32_iter_nonzero [of x n]
    worker_seed_nonzero [of i] xorshift32_iter_nonzero [of "worker_seed i" n]
  by blast

theorem xorshift32_seed_never_zero_witness:
  "(1::32 word) \<noteq> 0 \<and> xorshift32 1 \<noteq> 0 \<and> (xorshift32 ^^ 5) 1 \<noteq> 0 \<and>
   (0::nat) + 1 < 2 ^ 32 \<and> worker_seed 0 \<noteq> 0 \<and> (xorshift32 ^^ 5) (worker_seed 0) \<noteq> 0"
proof -
  have 1: "(1::32 word) \<noteq> 0" by simp
  have 2: "(0::nat) + 1 < 2 ^ 32" by simp
  from 1 2 show ?thesis
    using xorshift32_seed_never_zero [of 1 5 0] by blast
qed

section \<open>The coprime table and the victim walk\<close>

lemma coprimes_loop_filter:
  "coprimes_loop i n acc = acc @ filter (\<lambda>k. gcd k n = 1) [i..<n + 1]"
proof (induction i n acc rule: coprimes_loop.induct)
  case (1 i n acc)
  show ?case
  proof (cases "i \<le> n")
    case True
    then have "[i..<n + 1] = i # [i + 1..<n + 1]"
      by (simp add: upt_conv_Cons)
    with True "1.IH" show ?thesis
      by (subst coprimes_loop.simps) simp
  next
    case False
    then show ?thesis by (subst coprimes_loop.simps) simp
  qed
qed

lemma spawn_coprimes_filter:
  "spawn_coprimes W = filter (\<lambda>k. gcd k W = 1) [1..<W + 1]"
  by (simp add: spawn_coprimes_def coprimes_loop_filter)

lemma next_victim_mod:
  "victim < W \<Longrightarrow> inc \<le> W \<Longrightarrow> next_victim inc W victim = (victim + inc) mod W"
  by (simp add: next_victim_def Let_def le_mod_geq)

lemma steal_victims_map:
  "victim < W \<Longrightarrow> inc \<le> W \<Longrightarrow>
     steal_victims inc W victim n = map (\<lambda>j. (victim + j * inc) mod W) [0..<n]"
proof (induction n arbitrary: victim)
  case 0
  then show ?case by simp
next
  case (Suc n)
  have nv: "next_victim inc W victim = (victim + inc) mod W"
    using Suc.prems by (rule next_victim_mod)
  have lt: "(victim + inc) mod W < W" using Suc.prems by simp
  have "steal_victims inc W ((victim + inc) mod W) n =
        map (\<lambda>j. ((victim + inc) mod W + j * inc) mod W) [0..<n]"
    using Suc.IH [OF lt Suc.prems(2)] .
  also have "\<dots> = map (\<lambda>j. (victim + Suc j * inc) mod W) [0..<n]"
    by (simp add: mod_add_left_eq add.assoc)
  also have "\<dots> = map ((\<lambda>j. (victim + j * inc) mod W) \<circ> Suc) [0..<n]"
    by (simp add: comp_def)
  also have "\<dots> = map (\<lambda>j. (victim + j * inc) mod W) [Suc 0..<Suc n]"
    by (simp only: map_map [symmetric] map_Suc_upt)
  finally have tl: "steal_victims inc W ((victim + inc) mod W) n =
     map (\<lambda>j. (victim + j * inc) mod W) [Suc 0..<Suc n]" .
  have "[0..<Suc n] = 0 # [Suc 0..<Suc n]" by (simp add: upt_conv_Cons)
  then have "map (\<lambda>j. (victim + j * inc) mod W) [0..<Suc n] =
      victim mod W # map (\<lambda>j. (victim + j * inc) mod W) [Suc 0..<Suc n]"
    by simp
  with tl nv Suc.prems show ?case by simp
qed

lemma stride_le:
  assumes cop: "coprime inc W" and ab: "a \<le> b" and b: "b < (W::nat)"
    and eq: "(victim + a * inc) mod W = (victim + b * inc) mod W"
  shows "a = b"
proof -
  have le: "victim + a * inc \<le> victim + b * inc" using ab by simp
  from eq have "(victim + b * inc) mod W = (victim + a * inc) mod W" by simp
  then have "W dvd (victim + b * inc) - (victim + a * inc)"
    by (simp only: mod_eq_dvd_iff_nat [OF le])
  moreover have "(victim + b * inc) - (victim + a * inc) = (b - a) * inc"
    by (simp add: diff_mult_distrib)
  ultimately have "W dvd (b - a) * inc" by simp
  then have "W dvd b - a"
    using cop by (simp add: coprime_dvd_mult_left_iff coprime_commute)
  moreover have "b - a < W" using b by simp
  ultimately have "b - a = 0" by (metis dvd_imp_le not_less neq0_conv)
  with ab show ?thesis by simp
qed

lemma stride_inj:
  assumes cop: "coprime inc (W::nat)"
  shows "inj_on (\<lambda>j. (victim + j * inc) mod W) {0..<W}"
proof (rule inj_onI)
  fix a b
  assume a: "a \<in> {0..<W}" and b: "b \<in> {0..<W}"
    and eq: "(victim + a * inc) mod W = (victim + b * inc) mod W"
  show "a = b"
  proof (cases "a \<le> b")
    case True
    from b have "b < W" by simp
    from stride_le [OF cop True this eq] show ?thesis .
  next
    case False
    then have "b \<le> a" by simp
    moreover from a have "a < W" by simp
    ultimately have "b = a" using stride_le [OF cop _ _ eq [symmetric]] by blast
    then show ?thesis by simp
  qed
qed

lemma stride_walk_complete:
  assumes cop: "coprime inc W" and W: "0 < W"
  shows "distinct (map (\<lambda>j. (victim + j * inc) mod W) [0..<W]) \<and>
         set (map (\<lambda>j. (victim + j * inc) mod W) [0..<W]) = {0..<W}"
proof -
  let ?f = "\<lambda>j. (victim + j * inc) mod W"
  have inj: "inj_on ?f {0..<W}" using cop by (rule stride_inj)
  have d: "distinct (map ?f [0..<W])"
    using inj by (simp add: distinct_map)
  have sub: "?f ` {0..<W} \<subseteq> {0..<W}" using W by auto
  have "card (?f ` {0..<W}) = card {0..<W}" using inj by (rule card_image)
  with sub have "?f ` {0..<W} = {0..<W}"
    by (intro card_subset_eq) simp_all
  with d show ?thesis by simp
qed

lemma steal_victims_unfold:
  "i < W \<Longrightarrow> steal_victims inc W victim (W - i) =
     victim # steal_victims inc W (next_victim inc W victim) (W - (i + 1))"
proof -
  assume "i < W"
  then have "W - i = Suc (W - (i + 1))" by simp
  then show ?thesis by (simp only: steal_victims.simps)
qed

text \<open>What \<open>_steal\<close> probes is an initial part of the walk, and all of it when nothing is stolen.\<close>

lemma steal_loop_probed:
  "\<exists>n. probed (steal_loop ws free inc W victim i w) = take n (steal_victims inc W victim (W - i))"
proof (induction ws free inc W victim i w rule: steal_loop.induct)
  case (1 ws free inc W victim i w)
  show ?case
  proof (cases "i < W")
    case False
    then show ?thesis by (subst steal_loop.simps) (simp add: probed_def)
  next
    case True
    define r where "r = pop_back WorkQueue_N (queue (ws ! victim)) w (free victim)"
    define ws1 where "ws1 = ws[victim := (ws ! victim)\<lparr>queue := fst (snd r)\<rparr>]"
    show ?thesis
    proof (cases "fst r")
      case t: True
      have "probed (steal_loop ws free inc W victim i w) = [victim]"
        using True t by (subst steal_loop.simps) (simp add: probed_def r_def Let_def)
      also have "\<dots> = take 1 (steal_victims inc W victim (W - i))"
        using True by (simp add: steal_victims_unfold)
      finally show ?thesis by blast
    next
      case f: False
      from "1.IH" [OF True r_def ws1_def f]
      obtain n where n: "probed (steal_loop ws1 free inc W (next_victim inc W victim) (i + 1) (snd (snd r)))
         = take n (steal_victims inc W (next_victim inc W victim) (W - (i + 1)))" by blast
      have "probed (steal_loop ws free inc W victim i w) =
          victim # probed (steal_loop ws1 free inc W (next_victim inc W victim) (i + 1) (snd (snd r)))"
        using True f by (subst steal_loop.simps) (simp add: probed_def r_def ws1_def Let_def)
      also have "\<dots> = take (Suc n) (steal_victims inc W victim (W - i))"
        using True n by (simp add: steal_victims_unfold)
      finally show ?thesis by blast
    qed
  qed
qed

lemma steal_loop_failed:
  "\<not> fst (steal_loop ws free inc W victim i w) \<Longrightarrow>
     probed (steal_loop ws free inc W victim i w) = steal_victims inc W victim (W - i)"
proof (induction ws free inc W victim i w rule: steal_loop.induct)
  case (1 ws free inc W victim i w)
  show ?case
  proof (cases "i < W")
    case False
    then show ?thesis by (subst steal_loop.simps) (simp add: probed_def)
  next
    case True
    define r where "r = pop_back WorkQueue_N (queue (ws ! victim)) w (free victim)"
    define ws1 where "ws1 = ws[victim := (ws ! victim)\<lparr>queue := fst (snd r)\<rparr>]"
    have f: "\<not> fst r"
    proof
      assume "fst r"
      then have "fst (steal_loop ws free inc W victim i w)"
        using True by (subst steal_loop.simps) (simp add: r_def Let_def)
      with "1.prems" show False by simp
    qed
    have step: "steal_loop ws free inc W victim i w =
       (let rest = steal_loop ws1 free inc W (next_victim inc W victim) (i + 1) (snd (snd r))
        in (fst rest, fst (snd rest), fst (snd (snd rest)), victim # snd (snd (snd rest))))"
      using True f by (subst steal_loop.simps) (simp add: r_def ws1_def Let_def)
    then have "\<not> fst (steal_loop ws1 free inc W (next_victim inc W victim) (i + 1) (snd (snd r)))"
      using "1.prems" by (simp add: Let_def)
    from "1.IH" [OF True r_def ws1_def f this]
    have "probed (steal_loop ws1 free inc W (next_victim inc W victim) (i + 1) (snd (snd r)))
         = steal_victims inc W (next_victim inc W victim) (W - (i + 1))" .
    then show ?thesis
      using True step by (simp add: probed_def Let_def steal_victims_unfold)
  qed
qed

text \<open>\<open>spawn\<close> stores the table of the worker count it leaves behind.\<close>

lemma fold_works_frame:
  "coprimes (fold (\<lambda>i p. p\<lparr>works := works p @ [wk]\<rparr>) xs p) = coprimes p \<and>
   threads (fold (\<lambda>i p. p\<lparr>works := works p @ [wk]\<rparr>) xs p) = threads p"
  by (induction xs arbitrary: p) simp_all

lemma fold_threads_frame:
  "coprimes (fold (\<lambda>i p. p\<lparr>threads := threads p @ [new_id i],
                            worker_map := map_insert (worker_map p) (new_id i) (g i)\<rparr>) xs p) = coprimes p \<and>
   threads (fold (\<lambda>i p. p\<lparr>threads := threads p @ [new_id i],
                            worker_map := map_insert (worker_map p) (new_id i) (g i)\<rparr>) xs p) = threads p @ map new_id xs"
  by (induction xs arbitrary: p) simp_all

lemma spawn_stores_coprimes:
  assumes "spawn p tid N obs new_id = Returned p'"
  shows "coprimes p' = spawn_coprimes (num_workers p')"
  using assms
  by (auto simp: spawn_def Let_def do_action_def num_workers_def fold_threads_frame fold_works_frame
      split: if_splits outcome.splits)

lemma spawn_coprimes_set:
  "set (spawn_coprimes W) = {k. 1 \<le> k \<and> k \<le> W \<and> gcd k W = 1}"
  unfolding spawn_coprimes_filter by auto

lemma victim_walk:
  assumes W: "1 \<le> W" and inc: "inc \<in> set (spawn_coprimes W)" and v: "victim < W"
  shows "length (steal_victims inc W victim W) = W \<and>
         distinct (steal_victims inc W victim W) \<and>
         set (steal_victims inc W victim W) = {0..<W}"
proof -
  from inc have le: "inc \<le> W" and cop: "coprime inc W"
    by (simp_all add: spawn_coprimes_set coprime_iff_gcd_eq_1)
  have m: "steal_victims inc W victim W = map (\<lambda>j. (victim + j * inc) mod W) [0..<W]"
    using v le by (rule steal_victims_map)
  have "0 < W" using W by simp
  from stride_walk_complete [OF cop this, of victim]
  have d: "distinct (steal_victims inc W victim W)"
    and s: "set (steal_victims inc W victim W) = {0..<W}"
    unfolding m by simp_all
  have l: "length (steal_victims inc W victim W) = W" unfolding m by simp
  from l d s show ?thesis by blast
qed

lemma steal_probes_once:
  assumes W: "1 \<le> W" and c: "coprimes p = spawn_coprimes W" and n: "num_workers p = W"
  shows "distinct (probed (fst (steal p free w dice))) \<and>
         set (probed (fst (steal p free w dice))) \<subseteq> {0..<W} \<and>
         (\<not> fst (fst (steal p free w dice)) \<longrightarrow>
            set (probed (fst (steal p free w dice))) = {0..<W} \<and>
            length (probed (fst (steal p free w dice))) = W)"
proof -
  define dice1 where "dice1 = xorshift32 dice"
  define inc where "inc = coprimes p ! (unat dice1 mod length (coprimes p))"
  define victim where "victim = unat dice1 mod W"
  have s: "fst (steal p free w dice) = steal_loop (works p) free inc W victim 0 w"
    by (simp add: steal_def Let_def dice1_def inc_def victim_def n)
  have "1 \<in> set (spawn_coprimes W)" using W by (simp add: spawn_coprimes_set)
  then have "0 < length (coprimes p)" unfolding c by (rule length_pos_if_in_set)
  then have "inc \<in> set (coprimes p)" unfolding inc_def by (intro nth_mem) simp
  then have inc: "inc \<in> set (spawn_coprimes W)" unfolding c .
  have v: "victim < W" unfolding victim_def using W by simp
  from victim_walk [OF W inc v]
  have l: "length (steal_victims inc W victim W) = W"
    and d: "distinct (steal_victims inc W victim W)"
    and st: "set (steal_victims inc W victim W) = {0..<W}" by simp_all
  from steal_loop_probed [of "works p" free inc W victim 0 w]
  obtain m where m: "probed (steal_loop (works p) free inc W victim 0 w) =
      take m (steal_victims inc W victim W)" by auto
  have 1: "distinct (probed (fst (steal p free w dice)))"
    unfolding s m using d by (rule distinct_take)
  have 2: "set (probed (fst (steal p free w dice))) \<subseteq> {0..<W}"
    unfolding s m using set_take_subset [of m "steal_victims inc W victim W"] st by simp
  have 3: "set (probed (fst (steal p free w dice))) = {0..<W} \<and>
            length (probed (fst (steal p free w dice))) = W"
    if "\<not> fst (fst (steal p free w dice))"
    using steal_loop_failed [of "works p" free inc W victim 0 w] that l st
    unfolding s by simp
  from 1 2 3 show ?thesis by blast
qed

text \<open>
  Claim C4. For a pool of \<open>W \<ge> 1\<close> workers the table \<open>spawn\<close> computes and stores is the
  increasing list of all \<open>k\<close> with \<open>1 \<le> k \<le> W\<close> and \<open>gcd k W = 1\<close>. With a stride from the
  table and a first victim below \<open>W\<close>, the \<open>W\<close> values the loop of \<open>_steal\<close> gives to
  \<open>victim\<close> are pairwise different and are all the worker indices. So a call of \<open>_steal\<close>
  on a pool with that table probes no worker twice, and probes every worker once when it
  steals nothing.
\<close>

theorem coprime_table_and_victim_walk:
  assumes W: "1 \<le> W"
  shows "spawn_coprimes W = filter (\<lambda>k. gcd k W = 1) [1..<W + 1] \<and>
         sorted_wrt (<) (spawn_coprimes W) \<and>
         set (spawn_coprimes W) = {k. 1 \<le> k \<and> k \<le> W \<and> gcd k W = 1} \<and>
         (\<forall>(p::'a pool) tid N obs new_id p'.
            spawn p tid N obs new_id = Returned p' \<and> num_workers p' = W
              \<longrightarrow> coprimes p' = spawn_coprimes W) \<and>
         (\<forall>inc \<in> set (spawn_coprimes W). \<forall>victim < W.
            length (steal_victims inc W victim W) = W \<and>
            distinct (steal_victims inc W victim W) \<and>
            set (steal_victims inc W victim W) = {0..<W}) \<and>
         (\<forall>(p::'b pool) free w dice.
            coprimes p = spawn_coprimes W \<and> num_workers p = W \<longrightarrow>
              distinct (probed (fst (steal p free w dice))) \<and>
              set (probed (fst (steal p free w dice))) \<subseteq> {0..<W} \<and>
              (\<not> fst (fst (steal p free w dice)) \<longrightarrow>
                 set (probed (fst (steal p free w dice))) = {0..<W} \<and>
                 length (probed (fst (steal p free w dice))) = W))"
proof -
  have tab: "spawn_coprimes W = filter (\<lambda>k. gcd k W = 1) [1..<W + 1]"
    by (rule spawn_coprimes_filter)
  have srt: "sorted_wrt (<) (spawn_coprimes W)"
    unfolding tab by (rule sorted_wrt_filter) (rule sorted_wrt_upt)
  have st: "set (spawn_coprimes W) = {k. 1 \<le> k \<and> k \<le> W \<and> gcd k W = 1}"
    by (rule spawn_coprimes_set)
  have sp: "\<forall>(p::'a pool) tid N obs new_id p'.
            spawn p tid N obs new_id = Returned p' \<and> num_workers p' = W
              \<longrightarrow> coprimes p' = spawn_coprimes W"
    using spawn_stores_coprimes by blast
  have walk: "\<forall>inc \<in> set (spawn_coprimes W). \<forall>victim < W.
            length (steal_victims inc W victim W) = W \<and>
            distinct (steal_victims inc W victim W) \<and>
            set (steal_victims inc W victim W) = {0..<W}"
    using victim_walk [OF W] by blast
  have stl: "\<forall>(p::'b pool) free w dice.
            coprimes p = spawn_coprimes W \<and> num_workers p = W \<longrightarrow>
              distinct (probed (fst (steal p free w dice))) \<and>
              set (probed (fst (steal p free w dice))) \<subseteq> {0..<W} \<and>
              (\<not> fst (fst (steal p free w dice)) \<longrightarrow>
                 set (probed (fst (steal p free w dice))) = {0..<W} \<and>
                 length (probed (fst (steal p free w dice))) = W)"
    using steal_probes_once [OF W] by blast
  from tab srt st sp walk stl show ?thesis by (intro conjI)
qed

theorem coprime_table_and_victim_walk_witness:
  "1 \<le> (4::nat) \<and> spawn_coprimes 4 = [1, 3] \<and> 3 \<in> set (spawn_coprimes 4) \<and> (2::nat) < 4 \<and>
   steal_victims 3 4 2 4 = [2, 1, 0, 3] \<and>
   set (steal_victims 3 4 2 4) = {0..<4} \<and>
   (case spawn pool0 0 4 [] Suc of
      Returned p' \<Rightarrow>
        num_workers p' = 4 \<and> coprimes p' = spawn_coprimes 4 \<and>
        distinct (probed (fst (steal p' (\<lambda>v. True) None 1)))
    | _ \<Rightarrow> False)"
proof -
  have 1: "1 \<le> (4::nat)" by simp
  have f: "filter (\<lambda>k. gcd k (4::nat) = 1) [1..<4 + 1] = [1, 3]"
    by code_simp
  have 2: "spawn_coprimes 4 = [1, 3]"
    using coprime_table_and_victim_walk [OF 1, where ?'a = nat and ?'b = nat] f by simp
  have 3: "steal_victims 3 4 2 4 = [2, 1, 0, 3]"
    by (simp add: eval_nat_numeral next_victim_def)
  obtain p' where 4: "spawn pool0 0 4 [] Suc = Returned p'"
    by (simp add: spawn_def pool0_def is_owner_def Let_def)
  have 5: "num_workers p' = 4"
    using 4 by (auto simp: spawn_def pool0_def is_owner_def Let_def num_workers_def do_action_def
        fold_threads_frame fold_works_frame)
  have "\<forall>inc \<in> set (spawn_coprimes 4). \<forall>victim < 4.
          set (steal_victims inc 4 victim 4) = {0..<4}"
    using coprime_table_and_victim_walk [OF 1, where ?'a = nat and ?'b = nat] by blast
  with 2 have 6: "set (steal_victims 3 4 2 4) = {0..<4}" by simp
  have 7: "coprimes p' = spawn_coprimes 4"
    using coprime_table_and_victim_walk [OF 1, where ?'a = nat and ?'b = nat] 4 5 by blast
  have 8: "distinct (probed (fst (steal p' (\<lambda>v. True) None 1)))"
    using coprime_table_and_victim_walk [OF 1, where ?'a = nat and ?'b = nat] 5 7 by blast
  from 1 2 3 4 5 6 7 8 show ?thesis by simp
qed

section \<open>\<open>num_tasks\<close>\<close>

text \<open>
  Claim C9. \<open>num_tasks\<close> is the length of the shared overflow queue and nothing else: it
  does not depend on the workers' private queues. After the owner has submitted one task
  to the idle two-worker pool the task sits in a private queue and \<open>num_tasks\<close> is 0.
\<close>

theorem num_tasks_is_overflow_length:
  "num_tasks p = length (task_queue p) \<and> num_tasks (p\<lparr>works := ws\<rparr>) = num_tasks p \<and>
   num_tasks (silent_async pool2 0 7) = 0 \<and>
   \<not> empty_q (queue (works (silent_async pool2 0 7) ! 1))"
  by (simp add: num_tasks_def silent_async_def pool2_def num_workers_def Let_def push_back_def
      WorkQueue_N_def RunQueue_init_def IDX_MASK_def POS_MASK_def compare_exchange_strong_def
      store_state_def store_w_def set_queue_def do_action_def empty_q_def)

section \<open>A pool without workers\<close>

text \<open>
  Claim C7. With no workers, \<open>silent_async\<close> invokes the task on the calling thread and
  changes nothing else, \<open>async\<close> does the same and returns a future that already holds
  the callable's result, and \<open>wait_for_all\<close> called by the owner returns at once with the
  pool as it was, whatever the other threads would do.
\<close>

theorem no_workers_inline:
  assumes "num_workers p = 0"
  shows "silent_async p tid t = do_action p (Invoke t) \<and>
         async p tid c result = (do_action p (Invoke (User c)), Some (result c)) \<and>
         wait_for_all p (owner p) obs = Returned p"
  using assms by (simp add: silent_async_def async_def wait_for_all_def is_owner_def)

theorem no_workers_inline_witness:
  "num_workers callable_pool0 = 0 \<and>
   silent_async callable_pool0 3 (User 7) = callable_pool0\<lparr>trace := [Invoke (User 7)]\<rparr> \<and>
   async callable_pool0 3 7 Suc = (callable_pool0\<lparr>trace := [Invoke (User 7)]\<rparr>, Some 8) \<and>
   wait_for_all callable_pool0 0 [] = Returned callable_pool0"
proof -
  have 0: "num_workers callable_pool0 = 0" by (simp add: num_workers_def callable_pool0_def)
  have t: "do_action callable_pool0 (Invoke (User 7)) = callable_pool0\<lparr>trace := [Invoke (User 7)]\<rparr>"
    by (simp add: do_action_def callable_pool0_def)
  have o: "owner callable_pool0 = 0" by (simp add: callable_pool0_def)
  show ?thesis
    using no_workers_inline [OF 0, of 3 "User 7" 7 Suc "[]"] 0 t o by simp
qed

section \<open>Owner-only operations\<close>

lemma owner_wait_not_threw: "wait_for_all p (owner p) obs \<noteq> Threw msg q"
  by (simp add: wait_for_all_def is_owner_def Let_def split: option.splits)

text \<open>
  Claim C5. Called by a thread other than the owner, \<open>spawn\<close>, \<open>shutdown\<close> and
  \<open>wait_for_all\<close> throw with the pool exactly as it was (every data member and the trace),
  so a later call by the owner starts from the same pool; and the owner's own calls of the
  three operations never throw.
\<close>

theorem non_owner_rejected:
  assumes "tid \<noteq> owner p"
  shows "spawn p tid N obs new_id = Threw ''Worker thread cannot spawn threads'' p \<and>
         shutdown p tid obs noop joined = Threw ''Worker thread cannot shut down the pool'' p \<and>
         wait_for_all p tid obs = Threw ''Worker thread cannot wait for all'' p \<and>
         (\<forall>msg q. spawn p (owner p) N obs new_id \<noteq> Threw msg q) \<and>
         (\<forall>msg q. shutdown p (owner p) obs noop joined \<noteq> Threw msg q) \<and>
         (\<forall>msg q. wait_for_all p (owner p) obs \<noteq> Threw msg q)"
proof -
  have 1: "spawn p tid N obs new_id = Threw ''Worker thread cannot spawn threads'' p"
    using assms by (simp add: spawn_def is_owner_def)
  have 2: "shutdown p tid obs noop joined = Threw ''Worker thread cannot shut down the pool'' p"
    using assms by (simp add: shutdown_def is_owner_def)
  have 3: "wait_for_all p tid obs = Threw ''Worker thread cannot wait for all'' p"
    using assms by (simp add: wait_for_all_def is_owner_def)
  have 4: "spawn p (owner p) N obs new_id \<noteq> Threw msg q" for msg q
    using owner_wait_not_threw [of p obs]
    by (auto simp: spawn_def is_owner_def Let_def split: outcome.splits)
  have 5: "shutdown p (owner p) obs noop joined \<noteq> Threw msg q" for msg q
    by (simp add: shutdown_def is_owner_def Let_def split: option.splits)
  have 6: "wait_for_all p (owner p) obs \<noteq> Threw msg q" for msg q
    by (rule owner_wait_not_threw)
  from 1 2 3 4 5 6 show ?thesis by blast
qed

theorem non_owner_rejected_witness:
  "1 \<noteq> owner pool2 \<and>
   spawn pool2 1 3 [] Suc = Threw ''Worker thread cannot spawn threads'' pool2 \<and>
   shutdown pool2 1 [] 0 (\<lambda>p. None) = Threw ''Worker thread cannot shut down the pool'' pool2 \<and>
   wait_for_all pool2 1 [] = Threw ''Worker thread cannot wait for all'' pool2"
proof -
  have 1: "1 \<noteq> owner pool2" by (simp add: pool2_def)
  from non_owner_rejected [OF 1, of 3 "[]" Suc 0 "\<lambda>p. None"] 1 show ?thesis by blast
qed

section \<open>Submission by a worker\<close>

lemma set_queue_same: "set_queue p i (queue (works p ! i)) = p"
  by (simp add: set_queue_def)

text \<open>
  Claim C6. When the pool has workers and the submitting thread is not the owner and is
  registered in the worker map with index \<open>i\<close>, \<open>silent_async\<close> tries \<open>push_front\<close> on
  worker \<open>i\<close>'s queue. If that succeeds, the only change is that queue: no condition
  variable is notified, the mutex is not taken, the overflow queue is as before. If it
  fails, the task is appended to the overflow queue between taking and releasing the pool
  mutex, nothing is notified, and no private queue changes.
\<close>

theorem worker_submit_own_queue:
  assumes "num_workers p \<noteq> 0" and "tid \<noteq> owner p" and "worker_map p tid = Some i"
    and "i < length (works p)"
  shows "(fst (push_front WorkQueue_N (queue (works p ! i)) (Some c)) \<longrightarrow>
            silent_async p tid c =
              set_queue p i (fst (snd (push_front WorkQueue_N (queue (works p ! i)) (Some c)))) \<and>
            trace (silent_async p tid c) = trace p \<and>
            task_queue (silent_async p tid c) = task_queue p) \<and>
         (\<not> fst (push_front WorkQueue_N (queue (works p ! i)) (Some c)) \<longrightarrow>
            silent_async p tid c =
              p\<lparr>task_queue := task_queue p @ [Some c],
                 trace := trace p @ [LockMutex, PushOverflow, UnlockMutex]\<rparr>)"
proof (cases "fst (push_front WorkQueue_N (queue (works p ! i)) (Some c))")
  case True
  with assms show ?thesis
    by (simp add: silent_async_def Let_def set_queue_def)
next
  case False
  then have "push_front WorkQueue_N (queue (works p ! i)) (Some c) = (False, queue (works p ! i), Some c)"
    using push_front_cases [of WorkQueue_N "queue (works p ! i)" "Some c"] by blast
  with assms show ?thesis
    by (simp add: silent_async_def Let_def set_queue_same do_action_def)
qed

theorem worker_submit_own_queue_witness:
  "num_workers pool2 \<noteq> 0 \<and> 1 \<noteq> owner pool2 \<and> worker_map pool2 1 = Some 0 \<and> 0 < length (works pool2) \<and>
   fst (push_front WorkQueue_N (queue (works pool2 ! 0)) (Some 7)) \<and>
   trace (silent_async pool2 1 7) = [] \<and> task_queue (silent_async pool2 1 7) = [] \<and>
   worker_map pool2_full 1 = Some 0 \<and>
   \<not> fst (push_front WorkQueue_N (queue (works pool2_full ! 0)) (Some 7)) \<and>
   silent_async pool2_full 1 7 =
     pool2_full\<lparr>task_queue := [Some 7], trace := [LockMutex, PushOverflow, UnlockMutex]\<rparr>"
proof -
  have a: "num_workers pool2 \<noteq> 0" "1 \<noteq> owner pool2" "worker_map pool2 1 = Some 0"
    "0 < length (works pool2)"
    by (simp_all add: pool2_def num_workers_def)
  have b: "num_workers pool2_full \<noteq> 0" "1 \<noteq> owner pool2_full" "worker_map pool2_full 1 = Some 0"
    "0 < length (works pool2_full)"
    by (simp_all add: pool2_full_def pool2_def num_workers_def)
  have s: "fst (push_front WorkQueue_N (queue (works pool2 ! 0)) (Some 7))"
    by (simp add: pool2_def push_front_def WorkQueue_N_def RunQueue_init_def IDX_MASK_def
        compare_exchange_strong_def Let_def)
  have f: "\<not> fst (push_front WorkQueue_N (queue (works pool2_full ! 0)) (Some 7))"
    by (simp add: pool2_full_def pool2_def push_front_def WorkQueue_N_def full_queue_def
        IDX_MASK_def ready_entry_def Let_def)
  have t: "trace pool2 = []" "task_queue pool2 = []" "trace pool2_full = []" "task_queue pool2_full = []"
    by (simp_all add: pool2_full_def pool2_def)
  from worker_submit_own_queue [OF a, of 7] s t
  have 1: "trace (silent_async pool2 1 7) = [] \<and> task_queue (silent_async pool2 1 7) = []"
    by (simp add: set_queue_def)
  from worker_submit_own_queue [OF b, of 7] f t
  have 2: "silent_async pool2_full 1 7 =
     pool2_full\<lparr>task_queue := [Some 7], trace := [LockMutex, PushOverflow, UnlockMutex]\<rparr>"
    by simp
  from a b s f 1 2 show ?thesis by simp
qed

section \<open>Submission by the owner or an outside thread\<close>

text \<open>
  Claim C3 as stated fails: with two workers and the round-robin counter at 0, the value
  before the increment names worker 0, but the owner's submission goes to worker 1.
  Worker 0 is neither changed nor notified.
\<close>

theorem round_robin_counterexample:
  "num_workers pool2 = 2 \<and> owner pool2 = 0 \<and>
   unat (next_queue pool2) mod num_workers pool2 = 0 \<and>
   trace (silent_async pool2 0 7) = [NotifyOne 1] \<and>
   works (silent_async pool2 0 7) ! 0 = works pool2 ! 0 \<and>
   works (silent_async pool2 0 7) ! 1 \<noteq> works pool2 ! 1"
  by (simp add: silent_async_def pool2_def num_workers_def Let_def push_back_def
      WorkQueue_N_def RunQueue_init_def IDX_MASK_def POS_MASK_def compare_exchange_strong_def
      store_state_def store_w_def set_queue_def do_action_def)

text \<open>
  Claim C3, amended. For a submission by the owner or by a thread that is not in the
  worker map, with \<open>W \<ge> 1\<close> workers, the routed index is the value of the round-robin
  counter after the increment, \<open>(old + 1) mod 2^64\<close>, taken modulo \<open>W\<close>. \<open>push_back\<close> is
  tried on that worker's queue and no other queue changes; if it fails the task goes to
  the overflow queue under the pool mutex; in both cases that worker is then notified.
\<close>

theorem round_robin_after_increment:
  assumes "num_workers p \<noteq> 0" and "length (works p) = num_workers p"
    and "tid = owner p \<or> worker_map p tid = None"
  shows "let W = num_workers p;
             id = ((unat (next_queue p) + 1) mod 2 ^ 64) mod W;
             r = push_back WorkQueue_N (queue (works p ! id)) (Some c)
         in id < W \<and>
            next_queue (silent_async p tid c) = next_queue p + 1 \<and>
            works (silent_async p tid c) = (works p)[id := (works p ! id)\<lparr>queue := fst (snd r)\<rparr>] \<and>
            task_queue (silent_async p tid c) = task_queue p @ (if fst r then [] else [Some c]) \<and>
            trace (silent_async p tid c) =
              trace p @ (if fst r then [] else [LockMutex, PushOverflow, UnlockMutex]) @ [NotifyOne id]"
proof -
  have u: "unat (next_queue p + 1) = (unat (next_queue p) + 1) mod 2 ^ 64"
    by (simp add: unat_word_ariths)
  define id where "id = unat (next_queue p + 1) mod num_workers p"
  define r where "r = push_back WorkQueue_N (queue (works p ! id)) (Some c)"
  have idw: "unat (next_queue p + 1) mod length (works p) = id"
    using assms(2) by (simp add: id_def)
  have lt: "id < num_workers p" using assms(1) by (simp add: id_def)
  have cases: "r = (False, queue (works p ! id), Some c) \<or> fst r"
    unfolding r_def by (rule push_back_cases)
  have br: "(tid \<noteq> owner p \<and> worker_map p tid \<noteq> None) = False" using assms(3) by auto
  have sa: "silent_async p tid c =
      do_action
        (if \<not> fst r then
           do_action (do_action ((do_action (set_queue (p\<lparr>next_queue := next_queue p + 1\<rparr>) id (fst (snd r))) LockMutex)
               \<lparr>task_queue := task_queue p @ [snd (snd r)]\<rparr>) PushOverflow) UnlockMutex
         else set_queue (p\<lparr>next_queue := next_queue p + 1\<rparr>) id (fst (snd r)))
        (NotifyOne id)"
    using assms(1)
    by (simp only: silent_async_def Let_def br if_False)
       (simp add: set_queue_def do_action_def idw r_def)
  have goal: "id < num_workers p \<and>
            next_queue (silent_async p tid c) = next_queue p + 1 \<and>
            works (silent_async p tid c) = (works p)[id := (works p ! id)\<lparr>queue := fst (snd r)\<rparr>] \<and>
            task_queue (silent_async p tid c) = task_queue p @ (if fst r then [] else [Some c]) \<and>
            trace (silent_async p tid c) =
              trace p @ (if fst r then [] else [LockMutex, PushOverflow, UnlockMutex]) @ [NotifyOne id]"
    using cases lt by (auto simp: sa set_queue_def do_action_def)
  show ?thesis
    unfolding Let_def u [symmetric] id_def [symmetric] r_def [symmetric] by (rule goal)
qed

theorem round_robin_after_increment_witness:
  "num_workers pool2 \<noteq> 0 \<and> length (works pool2) = num_workers pool2 \<and> 0 = owner pool2 \<and>
   ((unat (next_queue pool2) + 1) mod 2 ^ 64) mod num_workers pool2 = 1 \<and>
   next_queue (silent_async pool2 0 7) = 1 \<and>
   task_queue (silent_async pool2 0 7) = [] \<and>
   trace (silent_async pool2 0 7) = [NotifyOne 1]"
proof -
  have a: "num_workers pool2 \<noteq> 0" and b: "length (works pool2) = num_workers pool2"
    and c: "0 = owner pool2 \<or> worker_map pool2 0 = None"
    by (simp_all add: pool2_def num_workers_def)
  have i: "((unat (next_queue pool2) + 1) mod 2 ^ 64) mod num_workers pool2 = 1"
    by (simp add: pool2_def num_workers_def)
  have r: "fst (push_back WorkQueue_N (queue (works pool2 ! 1)) (Some 7))"
    by (simp add: pool2_def push_back_def WorkQueue_N_def RunQueue_init_def IDX_MASK_def
        compare_exchange_strong_def Let_def)
  have e: "next_queue pool2 = 0" "task_queue pool2 = []" "trace pool2 = []" "owner pool2 = 0"
    by (simp_all add: pool2_def)
  from round_robin_after_increment [OF a b c, of 7]
  have "next_queue (silent_async pool2 0 7) = 1 \<and>
        task_queue (silent_async pool2 0 7) = [] \<and>
        trace (silent_async pool2 0 7) = [NotifyOne 1]"
    unfolding Let_def i using r e by simp
  with a b i e show ?thesis by simp
qed

section \<open>The run queue in a sequential execution\<close>

subsection \<open>The capacity is a power of two\<close>

lemma pow2_nat: "0 < n \<Longrightarrow> n AND (n - 1) = (0::nat) \<Longrightarrow> \<exists>k. n = 2 ^ k"
proof (induction n rule: less_induct)
  case (less n)
  show ?case
  proof (cases "n = 1")
    case True
    then have "n = 2 ^ 0" by simp
    then show ?thesis by blast
  next
    case False
    with less.prems have n2: "2 \<le> n" by simp
    have rec: "n AND (n - 1) = of_bool (odd n \<and> odd (n - 1)) + 2 * ((n div 2) AND ((n - 1) div 2))"
      by (rule and_rec)
    show ?thesis
    proof (cases "even n")
      case True
      then obtain m where m: "n = 2 * m" by (auto elim: evenE)
      with n2 have mpos: "0 < m" by simp
      have "(n - 1) div 2 = m - 1" using m mpos by simp
      with rec less.prems(2) m True have "m AND (m - 1) = 0" by simp
      from less.IH [OF _ mpos this] m mpos obtain k where "m = 2 ^ k" by auto
      with m have "n = 2 ^ Suc k" by simp
      then show ?thesis by blast
    next
      case False
      then obtain m where m: "n = 2 * m + 1" by (auto elim: oddE)
      with n2 have mpos: "0 < m" by simp
      have "n div 2 = m" "(n - 1) div 2 = m" using m by simp_all
      with rec less.prems(2) have "m AND m = 0" by simp
      with mpos show ?thesis by simp
    qed
  qed
qed

lemma pow2_word:
  assumes "(N::32 word) AND (N - 1) = 0" and "N \<noteq> 0"
  shows "\<exists>k<32. N = 2 ^ k"
proof -
  have pos: "0 < unat N" using assms(2) by (simp add: unat_gt_0)
  have "unat (N - 1) = unat N - 1" using assms(2) by (simp add: unat_minus_one)
  moreover have "unat (N AND (N - 1)) = unat N AND unat (N - 1)"
    by (simp add: unsigned_and_eq)
  ultimately have "unat N AND (unat N - 1) = 0" using assms(1) by simp
  from pow2_nat [OF pos this] obtain k where k: "unat N = 2 ^ k" by blast
  have "unat N < 2 ^ 32" using unsigned_less [of N] by simp
  with k have "(2::nat) ^ k < 2 ^ 32" by simp
  then have k32: "k < 32"
    by (simp only: power_strict_increasing_iff [of 2 k 32] one_less_numeral_iff semiring_norm)
  have "N = word_of_nat (unat N)" by simp
  also have "\<dots> = 2 ^ k" unfolding k by simp
  finally show ?thesis using k32 by blast
qed

lemma static_assert_pow2:
  assumes "static_assert_N N"
  shows "\<exists>k. 2 \<le> k \<and> k < 32 \<and> N = 2 ^ k"
proof -
  from assms have a: "N AND (N - 1) = 0" and g: "2 < N" by (simp_all add: static_assert_N_def)
  from g have "N \<noteq> 0" by auto
  from pow2_word [OF a this] obtain k where k: "k < 32" "N = 2 ^ k" by blast
  have "2 \<le> k"
  proof (rule ccontr)
    assume "\<not> 2 \<le> k"
    then have "k = 0 \<or> k = 1" by auto
    with k g show False by auto
  qed
  with k show ?thesis by blast
qed

lemma unat_and_mask_mod: "unat ((x::32 word) AND mask j) = unat x mod 2 ^ j"
proof -
  have "unat (x AND mask j) = unat (take_bit j x)" by (simp only: take_bit_eq_mask)
  also have "\<dots> = take_bit j (unat x)" by (rule unsigned_take_bit_eq)
  also have "\<dots> = unat x mod 2 ^ j" by (rule take_bit_eq_mod)
  finally show ?thesis .
qed

lemma IDX_MASK_pow2: "IDX_MASK (2 ^ k) = mask k"
  by (simp add: IDX_MASK_def mask_eq_exp_minus_1)

lemma POS_MASK_pow2: "POS_MASK (2 ^ k) = mask (Suc k)"
  by (simp add: POS_MASK_def mask_eq_exp_minus_1 push_bit_eq_mult)

lemma unat_pow2: "k < 32 \<Longrightarrow> unat ((2::32 word) ^ k) = 2 ^ k"
proof -
  assume k: "k < 32"
  have "unat ((2::32 word) ^ k) = unat (word_of_nat (2 ^ k) :: 32 word)" by simp
  also have "\<dots> = 2 ^ k mod 2 ^ LENGTH(32)" by (simp only: unat_of_nat)
  also have "\<dots> = 2 ^ k"
  proof -
    have "(2::nat) ^ k < 2 ^ 32" by (rule power_strict_increasing [OF k]) simp
    then show ?thesis by simp
  qed
  finally show ?thesis .
qed

lemma unat_succ_mod:
  assumes "j \<le> 32"
  shows "unat ((x::32 word) + 1) mod 2 ^ j = (unat x + 1) mod 2 ^ j"
proof -
  have d: "(2::nat) ^ j dvd 2 ^ 32" using assms by (rule le_imp_power_dvd)
  have "unat (x + 1) = (unat x + 1) mod 2 ^ 32" by (simp add: unat_word_ariths)
  then show ?thesis using d by (simp add: mod_mod_cancel)
qed

lemma unat_pred_mod:
  assumes "j \<le> 32"
  shows "unat ((x::32 word) - 1) mod 2 ^ j = (unat x + 2 ^ j - 1) mod 2 ^ j"
proof (cases "x = 0")
  case True
  have d: "(2::nat) ^ j dvd 2 ^ 32" using assms by (rule le_imp_power_dvd)
  then obtain c where c: "(2::nat) ^ 32 = 2 ^ j * c" by (auto elim: dvdE)
  then have cpos: "0 < c" by (cases c) auto
  have "unat ((0::32 word) - 1) = 2 ^ 32 - 1"
    by (simp add: unsigned_minus_1_eq_mask mask_eq_exp_minus_1)
  also have "\<dots> = 2 ^ j * (c - 1) + (2 ^ j - 1)"
    unfolding c using cpos by (simp add: algebra_simps diff_mult_distrib2)
  finally have "unat ((0::32 word) - 1) mod 2 ^ j = (2 ^ j - 1) mod 2 ^ j"
    by (simp only: mod_mult_self4)
  with True show ?thesis by simp
next
  case False
  then have pos: "0 < unat x" by (simp add: unat_gt_0)
  have "unat (x - 1) = unat x - 1" using False by (simp add: unat_minus_one)
  moreover have "unat x + 2 ^ j - 1 = (unat x - 1) + 2 ^ j" using pos by simp
  ultimately show ?thesis by simp
qed

subsection \<open>Slots and cursors\<close>

lemma mod_lt2: "x < 2 * M \<Longrightarrow> x mod M = (if x < M then x else x - (M::nat))"
  by (simp add: le_mod_geq)

lemma front_slot:
  "s < M \<Longrightarrow> cnt \<le> M \<Longrightarrow> occupied M s cnt ((s + cnt) mod M) \<longleftrightarrow> cnt = M"
  by (auto simp: occupied_def mod_lt2)

lemma front_push:
  "s < M \<Longrightarrow> cnt < M \<Longrightarrow> i < M \<Longrightarrow>
     occupied M s (cnt + 1) i \<longleftrightarrow> occupied M s cnt i \<or> i = (s + cnt) mod M"
  by (auto simp: occupied_def mod_lt2)

lemma count_update_add:
  "i < length xs \<Longrightarrow> \<not> P (xs ! i) \<Longrightarrow> P y \<Longrightarrow>
     length (filter P (xs[i := y])) = length (filter P xs) + 1"
proof (induction xs arbitrary: i)
  case Nil
  then show ?case by simp
next
  case (Cons x xs)
  then show ?case by (cases i) auto
qed

lemma idx_plain:
  "k < 32 \<Longrightarrow> unat (x AND IDX_MASK (2 ^ k)) = unat x mod unat ((2::32 word) ^ k)"
  by (simp only: IDX_MASK_pow2 unat_and_mask_mod unat_pow2)

lemma idx_pred:
  "k < 32 \<Longrightarrow> unat ((x - 1) AND IDX_MASK (2 ^ k)) =
     (unat x + unat ((2::32 word) ^ k) - 1) mod unat ((2::32 word) ^ k)"
  by (simp only: IDX_MASK_pow2 unat_and_mask_mod unat_pow2) (simp add: unat_pred_mod)

lemma double_pow2: "k < 32 \<Longrightarrow> 2 * unat ((2::32 word) ^ k) = 2 ^ Suc k"
  by (simp only: unat_pow2) simp

lemma pos_succ:
  "k < 32 \<Longrightarrow> unat ((x + 1) AND POS_MASK (2 ^ k)) = (unat x + 1) mod (2 * unat ((2::32 word) ^ k))"
  by (simp only: POS_MASK_pow2 unat_and_mask_mod double_pow2) (simp only: unat_succ_mod Suc_leI)

lemma pos_pred:
  "k < 32 \<Longrightarrow> unat ((x - 1) AND POS_MASK (2 ^ k)) =
     (unat x + 2 * unat ((2::32 word) ^ k) - 1) mod (2 * unat ((2::32 word) ^ k))"
  by (simp only: POS_MASK_pow2 unat_and_mask_mod double_pow2) (simp only: unat_pred_mod Suc_leI)

lemma entry_eq: "(e::'a Entry)\<lparr>item_w := v, state := b\<rparr> = \<lparr>state = b, item_w = v\<rparr>"
  by (cases e) simp

lemma push_front_result:
  assumes "j = unat (q_front q AND IDX_MASK N)" and "j < length (q_array q)"
  shows "push_front N q w =
     (if state (q_array q ! j) \<noteq> EMPTY then (False, q, w)
      else (True, q\<lparr>q_front := (q_front q + 1) AND POS_MASK N,
                    q_array := (q_array q)[j := \<lparr>state = READY, item_w = w\<rparr>]\<rparr>, None))"
  using assms
  by (simp add: push_front_def Let_def compare_exchange_strong_def store_state_def store_w_def entry_eq)

lemma rq_inv_init:
  assumes "k < 32"
  shows "rq_inv (2 ^ k) (RunQueue_init (2 ^ k))"
  using assms by (simp add: rq_inv_def RunQueue_init_def num_ready_def occupied_def unat_pow2)

lemma push_front_step:
  assumes k: "k < 32" and N: "N = 2 ^ k" and inv: "rq_inv N q"
  shows "rq_inv N (fst (snd (push_front N q w)))"
    and "fst (push_front N q w) \<longleftrightarrow> num_ready q < unat N"
    and "state (q_array q ! unat (q_front q AND IDX_MASK N)) = (if num_ready q = unat N then READY else EMPTY)"
    and "unat (q_front q AND IDX_MASK N) < unat N"
proof -
  define M where "M = unat N"
  define b where "b = unat (q_back q)"
  define c where "c = num_ready q"
  define s where "s = b mod M"
  define j where "j = unat (q_front q AND IDX_MASK N)"
  have Mpos: "0 < M" unfolding M_def N using k by (simp only: unat_pow2) simp
  from inv have len: "length (q_array q) = M" and bl: "b < 2 * M" and cl: "c \<le> M"
    and fe: "unat (q_front q) = (b + c) mod (2 * M)"
    and sl: "\<forall>i<M. state (q_array q ! i) = (if occupied M s c i then READY else EMPTY)"
    unfolding rq_inv_def M_def b_def c_def s_def by simp_all
  have sM: "s < M" unfolding s_def using Mpos by simp
  have "j = unat (q_front q) mod M" unfolding j_def M_def N using k by (rule idx_plain)
  also have "\<dots> = (b + c) mod M" unfolding fe by (simp add: mod_mod_cancel)
  also have "\<dots> = (s + c) mod M" unfolding s_def by (simp add: mod_add_left_eq)
  finally have j: "j = (s + c) mod M" .
  then have jM: "j < M" using Mpos by simp
  have st: "state (q_array q ! j) = (if c = M then READY else EMPTY)"
    using sl jM front_slot [OF sM cl] j by simp
  show "state (q_array q ! unat (q_front q AND IDX_MASK N)) = (if num_ready q = unat N then READY else EMPTY)"
    using st unfolding j_def c_def M_def .
  show "unat (q_front q AND IDX_MASK N) < unat N" using jM unfolding j_def M_def .
  have res: "push_front N q w =
     (if state (q_array q ! j) \<noteq> EMPTY then (False, q, w)
      else (True, q\<lparr>q_front := (q_front q + 1) AND POS_MASK N,
                    q_array := (q_array q)[j := \<lparr>state = READY, item_w = w\<rparr>]\<rparr>, None))"
    using j_def jM len by (intro push_front_result) simp_all
  show "fst (push_front N q w) \<longleftrightarrow> num_ready q < unat N"
    using st cl unfolding res c_def M_def by auto
  show "rq_inv N (fst (snd (push_front N q w)))"
  proof (cases "c = M")
    case True
    with st res inv show ?thesis by simp
  next
    case False
    with cl have cM: "c < M" by simp
    define q' where "q' = q\<lparr>q_front := (q_front q + 1) AND POS_MASK N,
                    q_array := (q_array q)[j := \<lparr>state = READY, item_w = w\<rparr>]\<rparr>"
    have r: "fst (snd (push_front N q w)) = q'" using st False res q'_def by simp
    have nr: "num_ready q' = c + 1"
      unfolding q'_def num_ready_def c_def
      using count_update_add [of j "q_array q" "\<lambda>e. state e = READY" "\<lparr>state = READY, item_w = w\<rparr>"]
        st False jM len by (simp add: num_ready_def)
    have f': "unat (q_front q') = (b + (c + 1)) mod (2 * M)"
    proof -
      have "unat (q_front q') = (unat (q_front q) + 1) mod (2 * M)"
        unfolding q'_def M_def N using k by (simp add: pos_succ)
      also have "\<dots> = (b + (c + 1)) mod (2 * M)"
        unfolding fe by (simp add: mod_Suc_eq)
      finally show ?thesis .
    qed
    have sl': "\<forall>i<M. state (q_array q' ! i) = (if occupied M s (c + 1) i then READY else EMPTY)"
    proof (intro allI impI)
      fix i assume i: "i < M"
      show "state (q_array q' ! i) = (if occupied M s (c + 1) i then READY else EMPTY)"
        using sl i jM len front_push [OF sM cM i] j
        by (cases "i = j") (simp_all add: q'_def)
    qed
    have "rq_inv N q'"
      unfolding rq_inv_def nr f'
      using len bl cM sl' Mpos
      by (simp add: q'_def M_def [symmetric] b_def [symmetric] s_def [symmetric])
    with r show ?thesis by simp
  qed
qed

lemma front_pop:
  "s < M \<Longrightarrow> cnt \<le> M \<Longrightarrow> 0 < cnt \<Longrightarrow> i < M \<Longrightarrow>
     occupied M s (cnt - 1) i \<longleftrightarrow> occupied M s cnt i \<and> i \<noteq> (s + (cnt - 1)) mod M"
  by (auto simp: occupied_def mod_lt2)

lemma front_pop_slot:
  "s < M \<Longrightarrow> cnt \<le> M \<Longrightarrow> 0 < cnt \<Longrightarrow> occupied M s cnt ((s + (cnt - 1)) mod M)"
  by (auto simp: occupied_def mod_lt2)

lemma back_slot:
  "s < M \<Longrightarrow> cnt \<le> M \<Longrightarrow> occupied M s cnt ((s + (M - 1)) mod M) \<longleftrightarrow> cnt = M"
  by (auto simp: occupied_def mod_lt2)

lemma back_push:
  "s < M \<Longrightarrow> cnt < M \<Longrightarrow> i < M \<Longrightarrow>
     occupied M ((s + (M - 1)) mod M) (cnt + 1) i \<longleftrightarrow> occupied M s cnt i \<or> i = (s + (M - 1)) mod M"
  by (auto simp: occupied_def mod_lt2)

lemma back_pop:
  "s < M \<Longrightarrow> cnt \<le> M \<Longrightarrow> 0 < cnt \<Longrightarrow> i < M \<Longrightarrow>
     occupied M ((s + 1) mod M) (cnt - 1) i \<longleftrightarrow> occupied M s cnt i \<and> i \<noteq> s"
  by (auto simp: occupied_def mod_lt2)

lemma back_pop_slot:
  "s < M \<Longrightarrow> 0 < cnt \<Longrightarrow> occupied M s cnt s"
  by (auto simp: occupied_def)

lemma count_update_del:
  "i < length xs \<Longrightarrow> P (xs ! i) \<Longrightarrow> \<not> P y \<Longrightarrow>
     length (filter P (xs[i := y])) = length (filter P xs) - 1"
proof (induction xs arbitrary: i)
  case Nil
  then show ?case by simp
next
  case (Cons x xs)
  show ?case
  proof (cases i)
    case 0
    with Cons.prems show ?thesis by simp
  next
    case (Suc j)
    with Cons.prems have "length (filter P (xs[j := y])) = length (filter P xs) - 1"
      by (intro Cons.IH) simp_all
    moreover have "xs ! j \<in> set (filter P xs)"
      using Cons.prems Suc by simp
    then have "0 < length (filter P xs)" by (rule length_pos_if_in_set)
    ultimately show ?thesis using Suc by simp
  qed
qed

lemma entry_eq2: "(e::'a Entry)\<lparr>state := b, item_w := v\<rparr> = \<lparr>state = b, item_w = v\<rparr>"
  by (cases e) simp

lemma pop_front_result:
  assumes "j = unat ((q_front q - 1) AND IDX_MASK N)" and "j < length (q_array q)"
  shows "pop_front N q w =
     (if empty_q q \<or> state (q_array q ! j) \<noteq> READY then (False, q, w)
      else (True, q\<lparr>q_front := (q_front q - 1) AND POS_MASK N,
                    q_array := (q_array q)[j := \<lparr>state = EMPTY, item_w = None\<rparr>]\<rparr>,
            item_w (q_array q ! j)))"
  using assms
  by (simp add: pop_front_def Let_def compare_exchange_strong_def store_state_def store_w_def entry_eq)

lemma push_back_result:
  assumes "j = unat ((q_back q - 1) AND IDX_MASK N)" and "j < length (q_array q)"
  shows "push_back N q w =
     (if state (q_array q ! j) \<noteq> EMPTY then (False, q, w)
      else (True, q\<lparr>q_back := (q_back q - 1) AND POS_MASK N,
                    q_array := (q_array q)[j := \<lparr>state = READY, item_w = w\<rparr>]\<rparr>, None))"
  using assms
  by (simp add: push_back_def Let_def compare_exchange_strong_def store_state_def store_w_def entry_eq)

lemma pop_back_result:
  assumes "j = unat (q_back q AND IDX_MASK N)" and "j < length (q_array q)"
  shows "pop_back N q w locked =
     (if empty_q q \<or> \<not> locked \<or> state (q_array q ! j) \<noteq> READY then (False, q, w)
      else (True, q\<lparr>q_back := (q_back q + 1) AND POS_MASK N,
                    q_array := (q_array q)[j := \<lparr>state = EMPTY, item_w = None\<rparr>]\<rparr>,
            item_w (q_array q ! j)))"
  using assms
  by (simp add: pop_back_def Let_def compare_exchange_strong_def store_state_def store_w_def entry_eq)

lemma nonempty_count:
  assumes "b < 2 * M" and "c \<le> M" and "(b + c) mod (2 * M) \<noteq> b"
  shows "0 < (c::nat)"
  using assms by (cases c) simp_all

lemma pop_front_step:
  assumes k: "k < 32" and N: "N = 2 ^ k" and inv: "rq_inv N q"
  shows "rq_inv N (fst (snd (pop_front N q w)))"
proof -
  define M where "M = unat N"
  define b where "b = unat (q_back q)"
  define c where "c = num_ready q"
  define s where "s = b mod M"
  define j where "j = unat ((q_front q - 1) AND IDX_MASK N)"
  have Mpos: "0 < M" unfolding M_def N using k by (simp only: unat_pow2) simp
  from inv have len: "length (q_array q) = M" and bl: "b < 2 * M" and cl: "c \<le> M"
    and fe: "unat (q_front q) = (b + c) mod (2 * M)"
    and sl: "\<forall>i<M. state (q_array q ! i) = (if occupied M s c i then READY else EMPTY)"
    unfolding rq_inv_def M_def b_def c_def s_def by simp_all
  have sM: "s < M" unfolding s_def using Mpos by simp
  have j0: "j = (unat (q_front q) + M - 1) mod M" unfolding j_def M_def N using k by (rule idx_pred)
  then have jM: "j < M" using Mpos by simp
  have res: "pop_front N q w =
     (if empty_q q \<or> state (q_array q ! j) \<noteq> READY then (False, q, w)
      else (True, q\<lparr>q_front := (q_front q - 1) AND POS_MASK N,
                    q_array := (q_array q)[j := \<lparr>state = EMPTY, item_w = None\<rparr>]\<rparr>,
            item_w (q_array q ! j)))"
    using j_def jM len by (intro pop_front_result) simp_all
  show ?thesis
  proof (cases "empty_q q \<or> state (q_array q ! j) \<noteq> READY")
    case True
    with res inv show ?thesis by simp
  next
    case False
    then have "q_front q \<noteq> q_back q" by (simp add: empty_q_def)
    then have "unat (q_front q) \<noteq> b" unfolding b_def by (simp add: word_unat_eq_iff)
    then have cpos: "0 < c" using nonempty_count [OF bl cl] fe by simp
    have "unat (q_front q) + M - 1 = unat (q_front q) + (M - 1)" using Mpos by simp
    then have "(unat (q_front q) + M - 1) mod M = (unat (q_front q) mod M + (M - 1)) mod M"
      by (simp only: mod_add_left_eq)
    also have "\<dots> = ((b + c) mod M + (M - 1)) mod M"
      unfolding fe by (simp add: mod_mod_cancel)
    also have "\<dots> = ((b + c) + (M - 1)) mod M"
      by (simp only: mod_add_left_eq)
    also have "(b + c) + (M - 1) = (b + (c - 1)) + M"
      using cpos Mpos by simp
    finally have "(unat (q_front q) + M - 1) mod M = ((b + (c - 1)) + M) mod M" .
    also have "\<dots> = (b + (c - 1)) mod M" by simp
    also have "\<dots> = (s + (c - 1)) mod M"
      unfolding s_def by (simp add: mod_add_left_eq)
    finally have j: "j = (s + (c - 1)) mod M" using j0 by simp
    define q' where "q' = q\<lparr>q_front := (q_front q - 1) AND POS_MASK N,
                    q_array := (q_array q)[j := \<lparr>state = EMPTY, item_w = None\<rparr>]\<rparr>"
    have r: "fst (snd (pop_front N q w)) = q'" using False res q'_def by simp
    have st: "state (q_array q ! j) = READY" using False by simp
    have nr: "num_ready q' = c - 1"
      unfolding q'_def num_ready_def c_def
      using count_update_del [of j "q_array q" "\<lambda>e. state e = READY" "\<lparr>state = EMPTY, item_w = None\<rparr>"]
        st jM len by (simp add: num_ready_def)
    have f': "unat (q_front q') = (b + (c - 1)) mod (2 * M)"
    proof -
      have "unat (q_front q') = (unat (q_front q) + 2 * M - 1) mod (2 * M)"
        unfolding q'_def M_def N using k by (simp add: pos_pred)
      also have "\<dots> = ((b + c) mod (2 * M) + (2 * M - 1)) mod (2 * M)"
        unfolding fe using Mpos by simp
      also have "\<dots> = ((b + c) + (2 * M - 1)) mod (2 * M)"
        by (simp only: mod_add_left_eq)
      also have "(b + c) + (2 * M - 1) = (b + (c - 1)) + 2 * M"
        using cpos Mpos by simp
      finally have "unat (q_front q') = ((b + (c - 1)) + 2 * M) mod (2 * M)" .
      also have "\<dots> = (b + (c - 1)) mod (2 * M)" by simp
      finally show ?thesis .
    qed
    have sl': "\<forall>i<M. state (q_array q' ! i) = (if occupied M s (c - 1) i then READY else EMPTY)"
    proof (intro allI impI)
      fix i assume i: "i < M"
      show "state (q_array q' ! i) = (if occupied M s (c - 1) i then READY else EMPTY)"
        using sl i jM len front_pop [OF sM cl cpos i] j
        by (cases "i = j") (simp_all add: q'_def)
    qed
    have "rq_inv N q'"
      unfolding rq_inv_def nr f'
      using len bl cl sl' Mpos
      by (simp add: q'_def M_def [symmetric] b_def [symmetric] s_def [symmetric])
    with r show ?thesis by simp
  qed
qed

lemma push_back_step:
  assumes k: "k < 32" and N: "N = 2 ^ k" and inv: "rq_inv N q"
  shows "rq_inv N (fst (snd (push_back N q w)))"
proof -
  define M where "M = unat N"
  define b where "b = unat (q_back q)"
  define c where "c = num_ready q"
  define s where "s = b mod M"
  define j where "j = unat ((q_back q - 1) AND IDX_MASK N)"
  have Mpos: "0 < M" unfolding M_def N using k by (simp only: unat_pow2) simp
  from inv have len: "length (q_array q) = M" and bl: "b < 2 * M" and cl: "c \<le> M"
    and fe: "unat (q_front q) = (b + c) mod (2 * M)"
    and sl: "\<forall>i<M. state (q_array q ! i) = (if occupied M s c i then READY else EMPTY)"
    unfolding rq_inv_def M_def b_def c_def s_def by simp_all
  have sM: "s < M" unfolding s_def using Mpos by simp
  have "j = (b + M - 1) mod M" unfolding j_def M_def N b_def using k by (rule idx_pred)
  also have "\<dots> = (b + (M - 1)) mod M" using Mpos by simp
  also have "\<dots> = (s + (M - 1)) mod M" unfolding s_def by (simp add: mod_add_left_eq)
  finally have j: "j = (s + (M - 1)) mod M" .
  then have jM: "j < M" using Mpos by simp
  have st: "state (q_array q ! j) = (if c = M then READY else EMPTY)"
    using sl jM back_slot [OF sM cl] j by simp
  have res: "push_back N q w =
     (if state (q_array q ! j) \<noteq> EMPTY then (False, q, w)
      else (True, q\<lparr>q_back := (q_back q - 1) AND POS_MASK N,
                    q_array := (q_array q)[j := \<lparr>state = READY, item_w = w\<rparr>]\<rparr>, None))"
    using j_def jM len by (intro push_back_result) simp_all
  show ?thesis
  proof (cases "c = M")
    case True
    with st res inv show ?thesis by simp
  next
    case False
    with cl have cM: "c < M" by simp
    define q' where "q' = q\<lparr>q_back := (q_back q - 1) AND POS_MASK N,
                    q_array := (q_array q)[j := \<lparr>state = READY, item_w = w\<rparr>]\<rparr>"
    have r: "fst (snd (push_back N q w)) = q'" using st False res q'_def by simp
    have nr: "num_ready q' = c + 1"
      unfolding q'_def num_ready_def c_def
      using count_update_add [of j "q_array q" "\<lambda>e. state e = READY" "\<lparr>state = READY, item_w = w\<rparr>"]
        st False jM len by (simp add: num_ready_def)
    have b': "unat (q_back q') = (b + (2 * M - 1)) mod (2 * M)"
    proof -
      have "unat (q_back q') = (b + 2 * M - 1) mod (2 * M)"
        unfolding q'_def M_def N b_def using k by (simp add: pos_pred)
      then show ?thesis using Mpos by simp
    qed
    have s': "unat (q_back q') mod M = j"
    proof -
      have "unat (q_back q') mod M = (b + (2 * M - 1)) mod M"
        unfolding b' by (simp add: mod_mod_cancel)
      also have "b + (2 * M - 1) = (b + (M - 1)) + M" using Mpos by simp
      finally have "unat (q_back q') mod M = ((b + (M - 1)) + M) mod M" .
      also have "\<dots> = (b + (M - 1)) mod M" by simp
      also have "\<dots> = (s + (M - 1)) mod M" unfolding s_def by (simp add: mod_add_left_eq)
      finally show ?thesis using j by simp
    qed
    have f': "unat (q_front q') = (unat (q_back q') + (c + 1)) mod (2 * M)"
    proof -
      have "(unat (q_back q') + (c + 1)) mod (2 * M) = ((b + (2 * M - 1)) + (c + 1)) mod (2 * M)"
        unfolding b' by (simp only: mod_add_left_eq)
      also have "(b + (2 * M - 1)) + (c + 1) = (b + c) + 2 * M" using Mpos by simp
      finally have "(unat (q_back q') + (c + 1)) mod (2 * M) = ((b + c) + 2 * M) mod (2 * M)" .
      also have "\<dots> = (b + c) mod (2 * M)" by simp
      finally show ?thesis using fe by (simp add: q'_def)
    qed
    have bl': "unat (q_back q') < 2 * M" unfolding b' using Mpos by simp
    have sl': "\<forall>i<M. state (q_array q' ! i) = (if occupied M j (c + 1) i then READY else EMPTY)"
    proof (intro allI impI)
      fix i assume i: "i < M"
      show "state (q_array q' ! i) = (if occupied M j (c + 1) i then READY else EMPTY)"
        using sl i jM len back_push [OF sM cM i] j
        by (cases "i = j") (simp_all add: q'_def)
    qed
    have l': "length (q_array q') = M" using len by (simp add: q'_def)
    have fl': "unat (q_front q') < 2 * M" unfolding f' using Mpos by simp
    have "rq_inv N q'"
      unfolding rq_inv_def M_def [symmetric] nr s'
      using l' fl' bl' cM f' sl' by simp
    with r show ?thesis by simp
  qed
qed

lemma pop_back_step:
  assumes k: "k < 32" and N: "N = 2 ^ k" and inv: "rq_inv N q"
  shows "rq_inv N (fst (snd (pop_back N q w locked)))"
proof -
  define M where "M = unat N"
  define b where "b = unat (q_back q)"
  define c where "c = num_ready q"
  define s where "s = b mod M"
  define j where "j = unat (q_back q AND IDX_MASK N)"
  have Mpos: "0 < M" unfolding M_def N using k by (simp only: unat_pow2) simp
  from inv have len: "length (q_array q) = M" and bl: "b < 2 * M" and cl: "c \<le> M"
    and fe: "unat (q_front q) = (b + c) mod (2 * M)"
    and sl: "\<forall>i<M. state (q_array q ! i) = (if occupied M s c i then READY else EMPTY)"
    unfolding rq_inv_def M_def b_def c_def s_def by simp_all
  have sM: "s < M" unfolding s_def using Mpos by simp
  have j: "j = s" unfolding j_def M_def N s_def b_def using k by (rule idx_plain)
  then have jM: "j < M" using sM by simp
  have res: "pop_back N q w locked =
     (if empty_q q \<or> \<not> locked \<or> state (q_array q ! j) \<noteq> READY then (False, q, w)
      else (True, q\<lparr>q_back := (q_back q + 1) AND POS_MASK N,
                    q_array := (q_array q)[j := \<lparr>state = EMPTY, item_w = None\<rparr>]\<rparr>,
            item_w (q_array q ! j)))"
    using j_def jM len by (intro pop_back_result) simp_all
  show ?thesis
  proof (cases "empty_q q \<or> \<not> locked \<or> state (q_array q ! j) \<noteq> READY")
    case True
    with res inv show ?thesis by simp
  next
    case False
    then have "q_front q \<noteq> q_back q" by (simp add: empty_q_def)
    then have "unat (q_front q) \<noteq> b" unfolding b_def by (simp add: word_unat_eq_iff)
    then have cpos: "0 < c" using nonempty_count [OF bl cl] fe by simp
    define q' where "q' = q\<lparr>q_back := (q_back q + 1) AND POS_MASK N,
                    q_array := (q_array q)[j := \<lparr>state = EMPTY, item_w = None\<rparr>]\<rparr>"
    have r: "fst (snd (pop_back N q w locked)) = q'" using False res q'_def by simp
    have st: "state (q_array q ! j) = READY" using False by simp
    have nr: "num_ready q' = c - 1"
      unfolding q'_def num_ready_def c_def
      using count_update_del [of j "q_array q" "\<lambda>e. state e = READY" "\<lparr>state = EMPTY, item_w = None\<rparr>"]
        st jM len by (simp add: num_ready_def)
    have b': "unat (q_back q') = (b + 1) mod (2 * M)"
      unfolding q'_def M_def N b_def using k by (simp add: pos_succ)
    have s': "unat (q_back q') mod M = (s + 1) mod M"
      unfolding b' s_def by (simp add: mod_mod_cancel mod_Suc_eq)
    have f': "unat (q_front q') = (unat (q_back q') + (c - 1)) mod (2 * M)"
    proof -
      have "(unat (q_back q') + (c - 1)) mod (2 * M) = ((b + 1) + (c - 1)) mod (2 * M)"
        unfolding b' by (simp only: mod_add_left_eq)
      also have "\<dots> = (b + c) mod (2 * M)" using cpos by simp
      finally show ?thesis using fe by (simp add: q'_def)
    qed
    have bl': "unat (q_back q') < 2 * M" unfolding b' using Mpos by simp
    have sl': "\<forall>i<M. state (q_array q' ! i) = (if occupied M ((s + 1) mod M) (c - 1) i then READY else EMPTY)"
    proof (intro allI impI)
      fix i assume i: "i < M"
      show "state (q_array q' ! i) = (if occupied M ((s + 1) mod M) (c - 1) i then READY else EMPTY)"
        using sl i jM len back_pop [OF sM cl cpos i] j
        by (cases "i = j") (simp_all add: q'_def)
    qed
    have l': "length (q_array q') = M" using len by (simp add: q'_def)
    have fl': "unat (q_front q') < 2 * M" unfolding f' using Mpos by simp
    have "rq_inv N q'"
      unfolding rq_inv_def M_def [symmetric] nr s'
      using l' fl' bl' cl f' sl' by simp
    with r show ?thesis by simp
  qed
qed

subsection \<open>Every queue that arises satisfies the invariant\<close>

lemma push_front_count:
  assumes k: "k < 32" and N: "N = 2 ^ k" and inv: "rq_inv N q" and lt: "num_ready q < unat N"
  shows "num_ready (fst (snd (push_front N q w))) = num_ready q + 1"
proof -
  define j where "j = unat (q_front q AND IDX_MASK N)"
  have jM: "j < unat N" unfolding j_def using push_front_step(4) [OF k N inv] .
  have len: "length (q_array q) = unat N" using inv by (simp add: rq_inv_def)
  have st: "state (q_array q ! j) = EMPTY"
    unfolding j_def using push_front_step(3) [OF k N inv] lt by simp
  have "push_front N q w =
     (True, q\<lparr>q_front := (q_front q + 1) AND POS_MASK N,
                    q_array := (q_array q)[j := \<lparr>state = READY, item_w = w\<rparr>]\<rparr>, None)"
    using push_front_result [of j q N w] j_def jM len st by simp
  then show ?thesis
    using count_update_add [of j "q_array q" "\<lambda>e. state e = READY" "\<lparr>state = READY, item_w = w\<rparr>"]
      st jM len by (simp add: num_ready_def)
qed

lemma reachable_inv:
  assumes sa: "static_assert_N N" and r: "reachable N q"
  shows "rq_inv N q"
proof -
  from static_assert_pow2 [OF sa] obtain k where k: "k < 32" and N: "N = 2 ^ k" by blast
  from r show ?thesis
  proof (induction rule: reachable.induct)
    case constructed
    show ?case unfolding N using k by (rule rq_inv_init)
  next
    case (after_push_front q w)
    then show ?case using push_front_step(1) [OF k N] by blast
  next
    case (after_pop_front q w)
    then show ?case using pop_front_step [OF k N] by blast
  next
    case (after_push_back q w)
    then show ?case using push_back_step [OF k N] by blast
  next
    case (after_pop_back q w locked)
    then show ?case using pop_back_step [OF k N] by blast
  qed
qed

lemma wrap_ne:
  assumes "b < 2 * M" and "c \<le> M" and "0 < (c::nat)"
  shows "(b + c) mod (2 * M) \<noteq> b"
proof -
  have "b + c < 2 * (2 * M)" using assms by simp
  then have "(b + c) mod (2 * M) = (if b + c < 2 * M then b + c else b + c - 2 * M)"
    by (rule mod_lt2)
  with assms show ?thesis by (simp split: if_splits)
qed

lemma empty_iff_no_tasks:
  assumes sa: "static_assert_N N" and r: "reachable N q"
  shows "empty_q q \<longleftrightarrow> num_ready q = 0"
proof -
  from reachable_inv [OF sa r]
  have bl: "unat (q_back q) < 2 * unat N" and cl: "num_ready q \<le> unat N"
    and fe: "unat (q_front q) = (unat (q_back q) + num_ready q) mod (2 * unat N)"
    by (simp_all add: rq_inv_def)
  have "empty_q q \<longleftrightarrow> unat (q_front q) = unat (q_back q)"
    by (simp add: empty_q_def word_unat_eq_iff)
  also have "\<dots> \<longleftrightarrow> num_ready q = 0"
  proof (cases "num_ready q = 0")
    case True
    with fe bl show ?thesis by simp
  next
    case False
    have "(unat (q_back q) + num_ready q) mod (2 * unat N) \<noteq> unat (q_back q)"
      using bl cl False by (intro wrap_ne) simp_all
    with fe False show ?thesis by simp
  qed
  finally show ?thesis .
qed

text \<open>
  Claim C2. For a capacity \<open>N\<close> that passes the class's static assertions and a queue
  that arises in a sequential execution, \<open>push_front\<close> returns false exactly when the
  queue holds \<open>N\<close> tasks, which is exactly when the slot at index \<open>front & IDX_MASK\<close> is
  not \<open>EMPTY\<close>. A queue never holds more than \<open>N\<close> tasks; when it holds fewer, the call
  succeeds, the task is in that slot, the slot is \<open>READY\<close>, the front cursor has advanced
  by one modulo \<open>2N\<close>, the caller's variable is moved from, and the queue holds one task
  more.
\<close>

theorem push_front_fails_iff_full:
  assumes sa: "static_assert_N N" and r: "reachable N q"
  shows "(\<not> fst (push_front N q w) \<longleftrightarrow> num_ready q = unat N) \<and>
         (\<not> fst (push_front N q w) \<longleftrightarrow>
            state (q_array q ! unat (q_front q AND IDX_MASK N)) \<noteq> EMPTY) \<and>
         num_ready q \<le> unat N \<and>
         (num_ready q < unat N \<longrightarrow>
            push_front N q w =
              (True,
               q\<lparr>q_front := (q_front q + 1) AND POS_MASK N,
                 q_array := (q_array q)[unat (q_front q AND IDX_MASK N) := \<lparr>state = READY, item_w = w\<rparr>]\<rparr>,
               None) \<and>
            unat ((q_front q + 1) AND POS_MASK N) = (unat (q_front q) + 1) mod (2 * unat N) \<and>
            num_ready (fst (snd (push_front N q w))) = num_ready q + 1)"
proof -
  from static_assert_pow2 [OF sa] obtain k where k: "k < 32" and N: "N = 2 ^ k" by blast
  have inv: "rq_inv N q" using sa r by (rule reachable_inv)
  define j where "j = unat (q_front q AND IDX_MASK N)"
  have cl: "num_ready q \<le> unat N" and len: "length (q_array q) = unat N"
    using inv by (simp_all add: rq_inv_def)
  have ok: "fst (push_front N q w) \<longleftrightarrow> num_ready q < unat N"
    using push_front_step(2) [OF k N inv] .
  have st: "state (q_array q ! j) = (if num_ready q = unat N then READY else EMPTY)"
    unfolding j_def using push_front_step(3) [OF k N inv] .
  have jM: "j < unat N" unfolding j_def using push_front_step(4) [OF k N inv] .
  have 1: "\<not> fst (push_front N q w) \<longleftrightarrow> num_ready q = unat N" using ok cl by auto
  have 2: "\<not> fst (push_front N q w) \<longleftrightarrow> state (q_array q ! j) \<noteq> EMPTY"
    using 1 st by simp
  have 3: "push_front N q w =
              (True,
               q\<lparr>q_front := (q_front q + 1) AND POS_MASK N,
                 q_array := (q_array q)[j := \<lparr>state = READY, item_w = w\<rparr>]\<rparr>,
               None)" if "num_ready q < unat N"
    using push_front_result [of j q N w] j_def jM len st that by simp
  have 4: "unat ((q_front q + 1) AND POS_MASK N) = (unat (q_front q) + 1) mod (2 * unat N)"
    unfolding N using k by (rule pos_succ)
  have 5: "num_ready (fst (snd (push_front N q w))) = num_ready q + 1" if "num_ready q < unat N"
    using push_front_count [OF k N inv that] .
  from 1 2 cl 3 4 5 show ?thesis unfolding j_def by blast
qed

lemma empty4_explicit:
  "empty4 = \<lparr>q_front = 0, q_back = 0,
     q_array = [\<lparr>state = EMPTY, item_w = None\<rparr>, \<lparr>state = EMPTY, item_w = None\<rparr>,
                \<lparr>state = EMPTY, item_w = None\<rparr>, \<lparr>state = EMPTY, item_w = None\<rparr>]\<rparr>"
proof -
  have u: "unat (4::32 word) = 4" by simp
  have r: "replicate 4 x = [x, x, x, x]" for x :: "nat Entry"
    by (simp add: numeral_eq_Suc)
  show ?thesis by (simp only: empty4_def RunQueue_init_def u r)
qed

theorem push_front_fails_iff_full_witness:
  "static_assert_N 4 \<and> reachable 4 empty4 \<and> reachable 4 full4 \<and>
   num_ready full4 = unat (4::32 word) \<and> \<not> fst (push_front 4 full4 (Some 7)) \<and>
   num_ready empty4 < unat (4::32 word) \<and> fst (push_front 4 empty4 (Some 7)) \<and>
   q_front (fst (snd (push_front 4 empty4 (Some 7)))) = 1"
proof -
  let ?e = "\<lparr>state = EMPTY, item_w = None\<rparr> :: nat Entry"
  let ?q1 = "\<lparr>q_front = 1, q_back = 0, q_array = [ready_entry 10, ?e, ?e, ?e]\<rparr>"
  let ?q2 = "\<lparr>q_front = 2, q_back = 0, q_array = [ready_entry 10, ready_entry 11, ?e, ?e]\<rparr>"
  let ?q3 = "\<lparr>q_front = 3, q_back = 0, q_array = [ready_entry 10, ready_entry 11, ready_entry 12, ?e]\<rparr>"
  note ev = ready_entry_def push_front_def IDX_MASK_def POS_MASK_def
    compare_exchange_strong_def store_state_def store_w_def Let_def
  have sa: "static_assert_N 4" by (simp add: static_assert_N_def)
  have r0: "reachable 4 empty4" unfolding empty4_def by (rule reachable.constructed)
  have s1: "fst (snd (push_front 4 empty4 (Some 10))) = ?q1"
    by (simp add: empty4_explicit ev)
  have s2: "fst (snd (push_front 4 ?q1 (Some 11))) = ?q2" by (simp add: ev)
  have s3: "fst (snd (push_front 4 ?q2 (Some 12))) = ?q3" by (simp add: ev)
  have s4: "fst (snd (push_front 4 ?q3 (Some 13))) = full4" by (simp add: ev full4_def)
  have r1: "reachable 4 ?q1" using reachable.after_push_front [OF r0, of "Some 10"] s1 by simp
  have r2: "reachable 4 ?q2" using reachable.after_push_front [OF r1, of "Some 11"] s2 by simp
  have r3: "reachable 4 ?q3" using reachable.after_push_front [OF r2, of "Some 12"] s3 by simp
  have rf: "reachable 4 full4" using reachable.after_push_front [OF r3, of "Some 13"] s4 by simp
  have nf: "num_ready full4 = unat (4::32 word)"
    by (simp add: num_ready_def full4_def ready_entry_def)
  have ne: "num_ready empty4 < unat (4::32 word)"
    by (simp add: num_ready_def empty4_explicit)
  from push_front_fails_iff_full [OF sa rf, of "Some 7"] nf
  have a: "\<not> fst (push_front 4 full4 (Some 7))" by blast
  from push_front_fails_iff_full [OF sa r0, of "Some 7"] ne
  have b: "fst (push_front 4 empty4 (Some 7))"
    and c: "q_front (fst (snd (push_front 4 empty4 (Some 7)))) = (q_front empty4 + 1) AND POS_MASK 4"
    by simp_all
  have d: "(q_front empty4 + 1) AND POS_MASK 4 = 1"
    by (simp add: empty4_explicit POS_MASK_def)
  from sa r0 rf nf a ne b c d show ?thesis by simp
qed

end
